theory Spec2Isabelle
  imports Main "HOL-Library.Char_ord" "HOL-Library.List_Lexorder" "HOL-Library.AList"
    "HOL-Library.Multiset"
begin

section \<open>Data model (shared/schemas)\<close>

text \<open>
  The eight bet categories of \<open>CategoryEnum\<close>. The constructor \<open>C3top\<close> stands for the
  TypeScript string \<open>'3top'\<close>, and so on. \<open>category_str\<close> gives the string itself, which the
  aggregation functions paste into their map keys.
\<close>

datatype Category = C3top | C3tod | C3down | C3back | C2top | C2tod | C2down | C2back

fun category_str :: "Category \<Rightarrow> string" where
  "category_str C3top = ''3top''"
| "category_str C3tod = ''3tod''"
| "category_str C3down = ''3down''"
| "category_str C3back = ''3back''"
| "category_str C2top = ''2top''"
| "category_str C2tod = ''2tod''"
| "category_str C2down = ''2down''"
| "category_str C2back = ''2back''"

text \<open>The table \<open>CATEGORY_DIGIT_LENGTH\<close>.\<close>

fun CATEGORY_DIGIT_LENGTH :: "Category \<Rightarrow> nat" where
  "CATEGORY_DIGIT_LENGTH C3top = 3"
| "CATEGORY_DIGIT_LENGTH C3tod = 3"
| "CATEGORY_DIGIT_LENGTH C3down = 3"
| "CATEGORY_DIGIT_LENGTH C3back = 3"
| "CATEGORY_DIGIT_LENGTH C2top = 2"
| "CATEGORY_DIGIT_LENGTH C2tod = 2"
| "CATEGORY_DIGIT_LENGTH C2down = 2"
| "CATEGORY_DIGIT_LENGTH C2back = 2"

text \<open>
  The JavaScript \<open>number\<close> is a type parameter \<open>'n\<close> of the records and functions. The
  functions use its \<open>+\<close>, \<open>*\<close>, \<open>-\<close>, \<open>0\<close>, \<open><\<close> and \<open>\<le>\<close> in the places and in the order in
  which the code does, and nothing is assumed of them: no associativity, no neutral element,
  no law of the order. What is proved therefore holds of the IEEE doubles with their rounding
  as of any other arithmetic.
\<close>

record 'n PerComboTotal =
  combo :: string
  pc_unitPrice :: 'n
  pc_quantity :: 'n
  soldAmount :: 'n
  payoutRate :: 'n

text \<open>
  An entry. The fields \<open>expanded\<close>, \<open>perComboTotals\<close> and \<open>total\<close> are optional in
  \<open>EntrySchema\<close>; \<open>None\<close> is JavaScript's \<open>undefined\<close>.
\<close>

record 'n Entry =
  entry_id :: string
  category :: Category
  raw :: string
  expanded :: "string list option"
  unitPrice :: 'n
  quantity :: 'n
  perComboTotals :: "'n PerComboTotal list option"
  totalE :: "'n option"

record 'n Ticket =
  ticket_id :: string
  agentId :: string
  roundT :: string
  date :: string
  entries :: "'n Entry list"
  billTotal :: 'n
  deleted :: bool

record 'n BlockedNumber =
  bn_number :: string
  bn_category :: Category
  payoutOverride :: 'n
  enabled :: bool

text \<open>
  \<open>Settings\<close>: \<open>payouts\<close> is an object with one rate per category, modelled as a function
  of the category; \<open>ceilings\<close> is flattened into its two fields.
\<close>

record 'n Settings =
  payouts :: "Category \<Rightarrow> 'n"
  perComboMax :: 'n
  perNumberMax :: 'n
  riskyThreshold :: 'n


section \<open>Number expansion (lib/expand.ts)\<close>

text \<open>
  \<open>getUniquePermutations\<close>: the inner function \<open>permute\<close> writes to the two variables
  \<open>results\<close> and \<open>seen\<close> of the enclosing call; they are threaded through as a pair. The
  array \<open>chars\<close> comes from \<open>raw.split('')\<close>, so each element is one character, and
  \<open>current.join('')\<close> is the string of these characters.
\<close>

function permute :: "string \<Rightarrow> string \<Rightarrow> string list \<times> string set \<Rightarrow> string list \<times> string set" where
  "permute arr current st =
     (if length arr = 0 then
        (let key = current in
         if key \<notin> snd st then (fst st @ [current], insert key (snd st)) else st)
      else
        fold (\<lambda>i. permute (take i arr @ drop (i + 1) arr) (current @ [arr ! i]))
          [0..<length arr] st)"
  by pat_completeness auto
termination
  by (relation "measure (\<lambda>(arr, current, st). length arr)") auto

definition getUniquePermutations :: "string \<Rightarrow> string list" where
  "getUniquePermutations chars = fst (permute chars [] ([], {}))"

text \<open>
  The errors thrown by \<open>validateNumber\<close>. Both are \<open>Error\<close> objects that differ in their
  message: \<open>InvalidFormat raw\<close> is the message "Invalid number: ... must contain only
  digits", \<open>InvalidLength raw n c k\<close> is "Invalid number length: ... has n digits, but
  category c requires k digits".
\<close>

datatype error = InvalidFormat string | InvalidLength string nat Category nat

text \<open>The character class \<open>\d\<close> of a JavaScript regular expression without flags.\<close>

definition is_digit :: "char \<Rightarrow> bool" where
  "is_digit c = (c \<in> set ''0123456789'')"

text \<open>The test \<open>/^\d+$/.test(raw)\<close>: one digit or more, and nothing else.\<close>

definition is_numeric :: "string \<Rightarrow> bool" where
  "is_numeric s = (s \<noteq> [] \<and> list_all is_digit s)"

definition validateNumber :: "string \<Rightarrow> Category \<Rightarrow> error + unit" where
  "validateNumber r c =
     (if \<not> is_numeric r then Inl (InvalidFormat r)
      else let expectedLength = CATEGORY_DIGIT_LENGTH c in
        if length r \<noteq> expectedLength then Inl (InvalidLength r (length r) c expectedLength)
        else Inr ())"

text \<open>
  \<open>expandNumber\<close>. \<open>Array.prototype.sort\<close> without a comparator orders strings by their
  code units, which is the lexicographic order of \<open>char list\<close>. In the \<open>2tod\<close> branch
  \<open>raw\<close> has passed the validation, so \<open>raw[0]\<close> and \<open>raw[1]\<close> exist.
\<close>

definition expandNumber :: "string \<Rightarrow> Category \<Rightarrow> error + string list" where
  "expandNumber r c =
     (case validateNumber r c of
        Inl e \<Rightarrow> Inl e
      | Inr _ \<Rightarrow>
          if c = C3tod then
            (let chars = r; permutations = getUniquePermutations chars
             in Inr (sort permutations))
          else if c = C2tod then
            (let swapped = [r ! 1, r ! 0] in
             if r = swapped then Inr [r] else Inr (sort [r, swapped]))
          else Inr [r])"

text \<open>
  Indexing a string as \<open>raw[i]\<close> gives \<open>undefined\<close> out of range; \<open>getExpansionCount\<close>
  does not validate, so the model keeps that case.
\<close>

definition char_at :: "string \<Rightarrow> nat \<Rightarrow> char option" where
  "char_at s i = (if i < length s then Some (s ! i) else None)"

definition getExpansionCount :: "string \<Rightarrow> Category \<Rightarrow> nat" where
  "getExpansionCount r c =
     (if c = C3tod then
        (let unique = set r in
         if card unique = 1 then 1 else if card unique = 2 then 3 else 6)
      else if c = C2tod then
        (if char_at r 0 = char_at r 1 then 1 else 2)
      else 1)"

text \<open>
  The step of \<open>permute\<close> at the empty array, named for the proofs: record \<open>current\<close> unless
  it has been seen.
\<close>

definition add_seen :: "string \<Rightarrow> string list \<times> string set \<Rightarrow> string list \<times> string set" where
  "add_seen cur st = (if cur \<notin> snd st then (fst st @ [cur], insert cur (snd st)) else st)"

text \<open>The invariant of the pair: \<open>seen\<close> holds the strings of \<open>results\<close>, each once.\<close>

definition seen_ok :: "string list \<times> string set \<Rightarrow> bool" where
  "seen_ok st = (snd st = set (fst st) \<and> distinct (fst st))"

section \<open>Entry computation (lib/compute.ts)\<close>

text \<open>\<open>Array.prototype.find\<close> returns the first element that satisfies the test.\<close>

definition findBlockedNumber :: "string \<Rightarrow> Category \<Rightarrow> 'n BlockedNumber list \<Rightarrow> 'n BlockedNumber option" where
  "findBlockedNumber cmb c blockedNumbers =
     find (\<lambda>b. bn_number b = cmb \<and> bn_category b = c \<and> enabled b) blockedNumbers"

text \<open>
  \<open>computeEntryTotals\<close>. An exception of \<open>expandNumber\<close> leaves the function at its first
  line. \<open>blocked?.payoutOverride ?? settings.payouts[entry.category]\<close> takes the override of the
  block found, the default rate when none is found (\<open>payoutOverride\<close> is a required number of
  \<open>BlockedNumberSchema\<close>).
\<close>

definition computeEntryTotals ::
  "('n::{plus,times,zero}) Entry \<Rightarrow> 'n Settings \<Rightarrow> 'n BlockedNumber list \<Rightarrow> error + 'n Entry" where
  "computeEntryTotals entry settings blockedNumbers =
     (case expandNumber (raw entry) (category entry) of
        Inl e \<Rightarrow> Inl e
      | Inr expanded' \<Rightarrow>
          (let isTodCategory = (category entry = C3tod \<or> category entry = C2tod);
               perComboTotals' = map (\<lambda>cmb.
                 (let blocked = findBlockedNumber cmb (category entry) blockedNumbers;
                      payoutRate' = (case blocked of
                                       Some b \<Rightarrow> payoutOverride b
                                     | None \<Rightarrow> payouts settings (category entry));
                      soldAmount' = unitPrice entry * quantity entry
                  in \<lparr>combo = cmb, pc_unitPrice = unitPrice entry, pc_quantity = quantity entry,
                      soldAmount = soldAmount', payoutRate = payoutRate'\<rparr>)) expanded';
               total' = (if isTodCategory then unitPrice entry * quantity entry
                         else foldl (\<lambda>sum c. sum + soldAmount c) 0 perComboTotals')
           in Inr (entry\<lparr>expanded := Some expanded', perComboTotals := Some perComboTotals',
                          totalE := Some total'\<rparr>)))"

section \<open>Exposure aggregation (lib/compute.ts)\<close>

text \<open>
  A JavaScript \<open>Map\<close> with string keys is an association list in insertion order:
  \<open>map_of\<close> is \<open>get\<close>, and \<open>AList.update\<close> is \<open>set\<close> (a new key goes to the end, an old key
  keeps its place). Adding to a field of the object that \<open>get\<close> returned is an update of the
  value under that key.
\<close>

record 'n ComboSale =
  cs_combo :: string
  cs_category :: Category
  cs_soldAmount :: 'n

record 'n RiskyNumber =
  rn_combo :: string
  rn_category :: Category
  rn_soldAmount :: 'n
  rn_threshold :: 'n

text \<open>The body of the innermost loop of \<open>aggregateComboSales\<close>.\<close>

definition addComboSale ::
  "('n::plus) Entry \<Rightarrow> 'n PerComboTotal \<Rightarrow> (string \<times> 'n ComboSale) list \<Rightarrow> (string \<times> 'n ComboSale) list" where
  "addComboSale entry comboTotal comboMap =
     (let key = category_str (category entry) @ '':'' @ combo comboTotal;
          existing = map_of comboMap key
      in case existing of
           Some ex \<Rightarrow>
             AList.update key (ex\<lparr>cs_soldAmount := cs_soldAmount ex + soldAmount comboTotal\<rparr>) comboMap
         | None \<Rightarrow>
             AList.update key \<lparr>cs_combo = combo comboTotal, cs_category = category entry,
                                cs_soldAmount = soldAmount comboTotal\<rparr> comboMap)"

definition aggregateComboSales :: "('n::plus) Ticket list \<Rightarrow> (string \<times> 'n ComboSale) list" where
  "aggregateComboSales tickets =
     fold (\<lambda>ticket comboMap.
       if deleted ticket then comboMap
       else fold (\<lambda>entry comboMap.
              case perComboTotals entry of
                None \<Rightarrow> comboMap
              | Some pcts \<Rightarrow> fold (addComboSale entry) pcts comboMap)
            (entries ticket) comboMap)
       tickets []"

text \<open>
  \<open>Array.prototype.sort\<close> with a comparison function. For a consistent comparator ECMAScript
  fixes the result: the stable sort. Inserting the elements from the last to the first, each
  before the first element that it does not have to follow, is a stable sort. The argument
  \<open>notAfter a b\<close> says that the comparator's value at \<open>(a, b)\<close> is not positive; a comparator
  value NaN counts as 0, so it is "not positive" too.
\<close>

fun insort_cmp :: "('a \<Rightarrow> 'a \<Rightarrow> bool) \<Rightarrow> 'a \<Rightarrow> 'a list \<Rightarrow> 'a list" where
  "insort_cmp notAfter x [] = [x]"
| "insort_cmp notAfter x (y # ys) =
     (if notAfter x y then x # y # ys else y # insort_cmp notAfter x ys)"

definition sort_cmp :: "('a \<Rightarrow> 'a \<Rightarrow> bool) \<Rightarrow> 'a list \<Rightarrow> 'a list" where
  "sort_cmp notAfter xs = foldr (insort_cmp notAfter) xs []"

text \<open>
  \<open>findRiskyNumbers\<close>, with the comparator \<open>(a, b) => b.soldAmount - a.soldAmount\<close>.
\<close>

definition findRiskyNumbers ::
  "('n::{plus,minus,zero,ord}) Ticket list \<Rightarrow> 'n \<Rightarrow> 'n RiskyNumber list" where
  "findRiskyNumbers tickets threshold =
     (let comboSales = aggregateComboSales tickets;
          riskyNumbers = fold (\<lambda>(k, data) riskyNumbers.
            if cs_soldAmount data > threshold
            then riskyNumbers @ [\<lparr>rn_combo = cs_combo data, rn_category = cs_category data,
                                   rn_soldAmount = cs_soldAmount data, rn_threshold = threshold\<rparr>]
            else riskyNumbers) comboSales []
      in sort_cmp (\<lambda>a b. \<not> (0 < rn_soldAmount b - rn_soldAmount a)) riskyNumbers)"

record 'n NumberTotal =
  nt_number :: string
  nt_category :: Category
  totalAmount :: 'n
  exceedsCeiling :: bool

text \<open>
  The amount that \<open>getNumberTotals\<close> adds for one expanded number:
  \<open>entry.perComboTotals?.find((p) => p.combo === num)?.soldAmount ?? entry.unitPrice\<close>.
\<close>

definition perComboAmount :: "'n Entry \<Rightarrow> string \<Rightarrow> 'n" where
  "perComboAmount entry n =
     (case (case perComboTotals entry of
              None \<Rightarrow> None
            | Some pcts \<Rightarrow> find (\<lambda>p. combo p = n) pcts) of
        Some p \<Rightarrow> soldAmount p
      | None \<Rightarrow> unitPrice entry)"

text \<open>The body of the innermost loop of \<open>getNumberTotals\<close>.\<close>

definition addNumberTotal ::
  "('n::{plus,ord}) \<Rightarrow> 'n Entry \<Rightarrow> string \<Rightarrow> (string \<times> 'n NumberTotal) list \<Rightarrow> (string \<times> 'n NumberTotal) list" where
  "addNumberTotal perNumberMax' entry n numberMap =
     (let key = category_str (category entry) @ ''-'' @ n;
          amount = perComboAmount entry n;
          existing = map_of numberMap key
      in case existing of
           Some ex \<Rightarrow>
             (let ex1 = ex\<lparr>totalAmount := totalAmount ex + amount\<rparr>;
                  ex2 = ex1\<lparr>exceedsCeiling := (totalAmount ex1 \<ge> perNumberMax')\<rparr>
              in AList.update key ex2 numberMap)
         | None \<Rightarrow>
             (let total' = amount
              in AList.update key \<lparr>nt_number = n, nt_category = category entry,
                    totalAmount = total', exceedsCeiling = (total' \<ge> perNumberMax')\<rparr> numberMap))"

text \<open>
  \<open>getNumberTotals\<close>. \<open>entry.expanded || [entry.raw]\<close> is \<open>[entry.raw]\<close> only when
  \<open>expanded\<close> is undefined: an empty array is truthy.
\<close>

definition getNumberTotals ::
  "('n::{plus,ord}) Ticket list \<Rightarrow> string \<Rightarrow> 'n \<Rightarrow> (string \<times> 'n NumberTotal) list" where
  "getNumberTotals tickets date' perNumberMax' =
     (let filteredTickets = filter (\<lambda>t. \<not> deleted t \<and> date t = date') tickets
      in fold (\<lambda>ticket numberMap.
           fold (\<lambda>entry numberMap.
             (let expanded' = (case expanded entry of Some ex \<Rightarrow> ex | None \<Rightarrow> [raw entry])
              in fold (addNumberTotal perNumberMax' entry) expanded' numberMap))
             (entries ticket) numberMap)
           filteredTickets [])"

section \<open>Actual payout (lib/payout.ts)\<close>




section \<open>Draw periods (lib/drawPeriod.ts)\<close>

text \<open>
  \<open>isDateInDrawPeriod\<close> hands its two strings to \<open>new Date\<close> and reads the results with
  \<open>getFullYear()\<close>, \<open>getMonth()\<close> and \<open>getDate()\<close>. ECMAScript reads a date-only string
  \<open>YYYY-MM-DD\<close> as midnight UTC of that calendar day, and the three getters give the fields of
  that instant in the local time of the runtime. A calendar day is a triple (year, month 1 to
  12, day).
\<close>

type_synonym civil = "int \<times> int \<times> int"

definition isLeapYear :: "int \<Rightarrow> bool" where
  "isLeapYear y = (y mod 4 = 0 \<and> (y mod 100 \<noteq> 0 \<or> y mod 400 = 0))"

definition daysInMonth :: "int \<Rightarrow> int \<Rightarrow> int" where
  "daysInMonth y m =
     (if m = 2 then (if isLeapYear y then 29 else 28)
      else if m = 4 \<or> m = 6 \<or> m = 9 \<or> m = 11 then 30 else 31)"

definition prevDay :: "civil \<Rightarrow> civil" where
  "prevDay c =
     (case c of (y, m, d) \<Rightarrow>
        if d > 1 then (y, m, d - 1)
        else if m > 1 then (y, m - 1, daysInMonth y (m - 1))
        else (y - 1, 12, 31))"

definition nextDay :: "civil \<Rightarrow> civil" where
  "nextDay c =
     (case c of (y, m, d) \<Rightarrow>
        if d < daysInMonth y m then (y, m, d + 1)
        else if m < 12 then (y, m + 1, 1)
        else (y + 1, 1, 1))"

text \<open>The calendar day \<open>k\<close> days after a day (before it, for a negative \<open>k\<close>).\<close>

definition shiftDays :: "int \<Rightarrow> civil \<Rightarrow> civil" where
  "shiftDays k c = (if k < 0 then (prevDay ^^ nat (- k)) c else (nextDay ^^ nat k) c)"

text \<open>
  The decimal value of a digit character: its place in the row of the ten digits.
\<close>

definition digitVal :: "char \<Rightarrow> int" where
  "digitVal c = int (length (takeWhile (\<lambda>d. d \<noteq> c) ''0123456789''))"

text \<open>
  The date-only form of the ECMAScript date-time string format: four digits, two digits and
  two digits with hyphens between, naming a day that exists. (\<open>TicketSchema\<close> admits only
  this shape for \<open>date\<close>, and the period ids are built in it.)
\<close>

definition parseISODate :: "string \<Rightarrow> civil option" where
  "parseISODate s =
     (if length s = 10 \<and> s ! 4 = CHR ''-'' \<and> s ! 7 = CHR ''-'' \<and>
         list_all is_digit [s ! 0, s ! 1, s ! 2, s ! 3, s ! 5, s ! 6, s ! 8, s ! 9]
      then
        (let y = digitVal (s ! 0) * 1000 + digitVal (s ! 1) * 100 + digitVal (s ! 2) * 10 + digitVal (s ! 3);
             m = digitVal (s ! 5) * 10 + digitVal (s ! 6);
             d = digitVal (s ! 8) * 10 + digitVal (s ! 9)
         in if 1 \<le> m \<and> m \<le> 12 \<and> 1 \<le> d \<and> d \<le> daysInMonth y m then Some (y, m, d) else None)
      else None)"

text \<open>
  What the runtime decides: \<open>tzOffset c\<close> is the number of minutes by which its local time is
  ahead of UTC at midnight UTC of the day \<open>c\<close> (420 in Bangkok, -300 in New York in winter;
  the negative of \<open>getTimezoneOffset()\<close>), and \<open>otherDate\<close> is what its \<open>Date\<close> makes of a
  string that is not a date of the form above, which ECMAScript leaves to the
  implementation.
\<close>

record JSDate =
  getFullYear :: int
  getMonth :: int
  getDate :: int

record Runtime =
  tzOffset :: "civil \<Rightarrow> int"
  otherDate :: "string \<Rightarrow> JSDate option"

text \<open>
  The local fields of midnight UTC of a day: the instant lies \<open>tzOffset\<close> minutes into that
  day in local time, so the local day is \<open>\<lfloor>tzOffset / 1440\<rfloor>\<close> days later. \<open>getMonth()\<close>
  counts from 0.
\<close>

definition localFields :: "Runtime \<Rightarrow> civil \<Rightarrow> JSDate" where
  "localFields rt c =
     (case shiftDays (tzOffset rt c div 1440) c of
        (y, m, d) \<Rightarrow> \<lparr>getFullYear = y, getMonth = m - 1, getDate = d\<rparr>)"

text \<open>
  \<open>new Date(s)\<close> as far as the three getters show it; \<open>None\<close> is an invalid date, whose
  getters return NaN, which is equal to nothing.
\<close>

definition newDate :: "Runtime \<Rightarrow> string \<Rightarrow> JSDate option" where
  "newDate rt s =
     (case parseISODate s of
        Some c \<Rightarrow> Some (localFields rt c)
      | None \<Rightarrow> otherDate rt s)"

definition isDateInDrawPeriod :: "Runtime \<Rightarrow> string \<Rightarrow> string \<Rightarrow> bool" where
  "isDateInDrawPeriod rt ticketDate drawPeriodId =
     (case newDate rt drawPeriodId of
        None \<Rightarrow> False
      | Some dpDate \<Rightarrow>
          (case newDate rt ticketDate of
             None \<Rightarrow> False
           | Some tDate \<Rightarrow>
               (let tDay = getDate tDate; tMonth = getMonth tDate; tYear = getFullYear tDate;
                    dpDay = getDate dpDate; dpMonth = getMonth dpDate; dpYear = getFullYear dpDate
                in if dpDay = 1 then
                     (let prevMonth = (if dpMonth = 0 then 11 else dpMonth - 1);
                          prevYear = (if dpMonth = 0 then dpYear - 1 else dpYear)
                      in if tYear = prevYear \<and> tMonth = prevMonth \<and> tDay \<ge> 18 then True
                         else if tYear = dpYear \<and> tMonth = dpMonth \<and> tDay = 1 then True
                         else False)
                   else if dpDay = 16 then
                     (if tYear = dpYear \<and> tMonth = dpMonth \<and> tDay \<ge> 2 \<and> tDay \<le> 17 then True
                      else False)
                   else False)))"

section \<open>Notions of the specification\<close>

text \<open>
  A blocked number applies to a combo of an entry: it is enabled, its number is the combo and
  its category is the category of the entry.
\<close>

definition blockMatches :: "Category \<Rightarrow> string \<Rightarrow> 'n BlockedNumber \<Rightarrow> bool" where
  "blockMatches c cmb b = (enabled b \<and> bn_number b = cmb \<and> bn_category b = c)"

text \<open>
  The sum of a list as the program forms it: \<open>jsSum\<close> starts from 0 and adds the elements
  from left to right (a \<open>reduce\<close> from 0, or a variable set to 0 before a loop);
  \<open>runningSum\<close> starts from the first element and adds the others from left to right, which
  is how a map entry created with its first amount grows; it is \<open>None\<close> for no element.
\<close>

definition jsSum :: "('n::{plus,zero}) list \<Rightarrow> 'n" where
  "jsSum xs = foldl (+) 0 xs"

fun runningSum :: "('n::plus) list \<Rightarrow> 'n option" where
  "runningSum [] = None"
| "runningSum (a # as) = Some (foldl (+) a as)"

text \<open>
  Every perComboTotal of every entry of every ticket that is not soft-deleted, each with its
  entry, in the order of the tickets.
\<close>

definition liveCombos :: "'n Ticket list \<Rightarrow> ('n Entry \<times> 'n PerComboTotal) list" where
  "liveCombos tickets =
     concat (map (\<lambda>t. concat (map (\<lambda>e. case perComboTotals e of
                                            None \<Rightarrow> []
                                          | Some pcts \<Rightarrow> map (Pair e) pcts) (entries t)))
                 (filter (\<lambda>t. \<not> deleted t) tickets))"







text \<open>
  In a list of perComboTotals with their entries: the \<open>soldAmount\<close>s of a (category, combo)
  pair in the order of the list, and their sum as the program forms it, \<open>None\<close> when the pair
  does not occur.
\<close>

definition soldAmountsOf :: "('n Entry \<times> 'n PerComboTotal) list \<Rightarrow> Category \<Rightarrow> string \<Rightarrow> 'n list" where
  "soldAmountsOf xs c k =
     map (\<lambda>(e, p). soldAmount p) (filter (\<lambda>(e, p). category e = c \<and> combo p = k) xs)"

definition soldIn :: "('n::plus Entry \<times> 'n PerComboTotal) list \<Rightarrow> Category \<Rightarrow> string \<Rightarrow> 'n option" where
  "soldIn xs c k = runningSum (soldAmountsOf xs c k)"

text \<open>
  The invariant of the loop of \<open>aggregateComboSales\<close>, after the perComboTotals \<open>ys\<close>: the keys
  of the map are distinct; a value sits under the key of its own category and combo and
  holds the sum of their amounts in \<open>ys\<close>; every pair that occurs in \<open>ys\<close> has a key.
\<close>

definition agg_inv :: "(string \<times> ('n::plus) ComboSale) list \<Rightarrow> ('n Entry \<times> 'n PerComboTotal) list \<Rightarrow> bool" where
  "agg_inv m ys =
     (distinct (map fst m) \<and>
      (\<forall>K v. map_of m K = Some v \<longrightarrow>
         K = category_str (cs_category v) @ '':'' @ cs_combo v \<and>
         soldIn ys (cs_category v) (cs_combo v) = Some (cs_soldAmount v)) \<and>
      (\<forall>c k. soldIn ys c k \<noteq> None \<longrightarrow> map_of m (category_str c @ '':'' @ k) \<noteq> None))"

text \<open>
  The comparator of \<open>findRiskyNumbers\<close> is consistent on a set of amounts and orders them
  downwards: the sign of \<open>b - a\<close> is positive exactly when \<open>a < b\<close>, and "not less than" is
  total and transitive there. This holds of doubles that are not NaN.
\<close>

definition descendingComparator :: "('n::{minus,zero,ord}) set \<Rightarrow> bool" where
  "descendingComparator S =
     ((\<forall>a \<in> S. \<forall>b \<in> S. (0 < b - a) = (a < b)) \<and>
      (\<forall>a \<in> S. \<forall>b \<in> S. \<not> (a < b \<and> b < a)) \<and>
      (\<forall>a \<in> S. \<forall>b \<in> S. \<forall>c \<in> S. \<not> a < b \<and> \<not> b < c \<longrightarrow> \<not> a < c))"

text \<open>
  The expanded numbers that \<open>getNumberTotals\<close> walks through for a date, each with its entry:
  those of the tickets that are not soft-deleted and carry exactly that date string.
\<close>

definition liveNumbers :: "'n Ticket list \<Rightarrow> string \<Rightarrow> ('n Entry \<times> string) list" where
  "liveNumbers tickets d =
     concat (map (\<lambda>t. concat (map (\<lambda>e. map (Pair e) (case expanded e of
                                                           Some ex \<Rightarrow> ex
                                                         | None \<Rightarrow> [raw e])) (entries t)))
                 (filter (\<lambda>t. \<not> deleted t \<and> date t = d) tickets))"

text \<open>
  In such a list: the amounts that \<open>getNumberTotals\<close> takes for a (category, number) pair in
  the order of the list, and their sum as the program forms it, \<open>None\<close> when the pair does
  not occur.
\<close>

definition amountsOf :: "('n Entry \<times> string) list \<Rightarrow> Category \<Rightarrow> string \<Rightarrow> 'n list" where
  "amountsOf ys c n =
     map (\<lambda>(e, n'). perComboAmount e n') (filter (\<lambda>(e, n'). category e = c \<and> n' = n) ys)"

definition amountIn :: "('n::plus Entry \<times> string) list \<Rightarrow> Category \<Rightarrow> string \<Rightarrow> 'n option" where
  "amountIn ys c n = runningSum (amountsOf ys c n)"

text \<open>
  The invariant of the loop of \<open>getNumberTotals\<close>, after the numbers \<open>ys\<close>: distinct keys; a
  value sits under the key of its own category and number, holds the sum of their amounts in
  \<open>ys\<close>, and its flag says whether that sum has reached the ceiling; every pair that occurs
  has a key.
\<close>

definition num_inv :: "('n::{plus,ord}) \<Rightarrow> (string \<times> 'n NumberTotal) list \<Rightarrow> ('n Entry \<times> string) list \<Rightarrow> bool" where
  "num_inv mx m ys =
     (distinct (map fst m) \<and>
      (\<forall>K v. map_of m K = Some v \<longrightarrow>
         K = category_str (nt_category v) @ ''-'' @ nt_number v \<and>
         amountIn ys (nt_category v) (nt_number v) = Some (totalAmount v) \<and>
         (exceedsCeiling v \<longleftrightarrow> totalAmount v \<ge> mx)) \<and>
      (\<forall>c n. amountIn ys c n \<noteq> None \<longrightarrow> map_of m (category_str c @ ''-'' @ n) \<noteq> None))"

text \<open>
  The draw period of the claim, on calendar days: the anchor is day 1 of a month M and the
  ticket is dated day 18 or later of the month before M (December of the year before when M
  is January) or day 1 of M; or the anchor is day 16 of M and the ticket is dated day 2 to
  day 17 of M. \<open>monthNumber\<close> counts the months of the calendar from year 0.
\<close>

definition monthNumber :: "civil \<Rightarrow> int" where
  "monthNumber c = (case c of (y, m, d) \<Rightarrow> y * 12 + m)"

definition dayOf :: "civil \<Rightarrow> int" where
  "dayOf c = (case c of (y, m, d) \<Rightarrow> d)"

definition inDrawPeriod :: "civil \<Rightarrow> civil \<Rightarrow> bool" where
  "inDrawPeriod t dp =
     (dayOf dp = 1 \<and>
        (monthNumber t = monthNumber dp - 1 \<and> dayOf t \<ge> 18 \<or>
         monthNumber t = monthNumber dp \<and> dayOf t = 1) \<or>
      dayOf dp = 16 \<and> monthNumber t = monthNumber dp \<and> 2 \<le> dayOf t \<and> dayOf t \<le> 17)"

section \<open>Sample inputs\<close>

text \<open>
  The samples have type \<open>int\<close> for the numbers: their amounts are whole numbers far below
  \<open>2^53\<close>, on which the arithmetic of doubles is exact. First an entry as a caller hands it to
  \<open>computeEntryTotals\<close>, before the derived fields exist, and \<open>DEFAULT_SETTINGS\<close> of the
  schemas.
\<close>

definition mkEntry :: "Category \<Rightarrow> string \<Rightarrow> int \<Rightarrow> int \<Rightarrow> int Entry" where
  "mkEntry c r p q =
     \<lparr>entry_id = ''e'', category = c, raw = r, expanded = None, unitPrice = p, quantity = q,
      perComboTotals = None, totalE = None\<rparr>"

fun DEFAULT_PAYOUTS :: "Category \<Rightarrow> int" where
  "DEFAULT_PAYOUTS C3top = 800"
| "DEFAULT_PAYOUTS C3tod = 130"
| "DEFAULT_PAYOUTS C3down = 400"
| "DEFAULT_PAYOUTS C3back = 130"
| "DEFAULT_PAYOUTS C2top = 70"
| "DEFAULT_PAYOUTS C2tod = 35"
| "DEFAULT_PAYOUTS C2down = 70"
| "DEFAULT_PAYOUTS C2back = 35"

definition DEFAULT_SETTINGS :: "int Settings" where
  "DEFAULT_SETTINGS =
     \<lparr>payouts = DEFAULT_PAYOUTS, perComboMax = 10000, perNumberMax = 50000, riskyThreshold = 5000\<rparr>"

text \<open>
  Four blocked numbers on 123: a disabled one for 3tod, one for 3top, and two enabled ones
  for 3tod.
\<close>

definition sampleBlocked :: "int BlockedNumber list" where
  "sampleBlocked =
     [\<lparr>bn_number = ''123'', bn_category = C3tod, payoutOverride = 1, enabled = False\<rparr>,
      \<lparr>bn_number = ''123'', bn_category = C3top, payoutOverride = 2, enabled = True\<rparr>,
      \<lparr>bn_number = ''123'', bn_category = C3tod, payoutOverride = 50, enabled = True\<rparr>,
      \<lparr>bn_number = ''123'', bn_category = C3tod, payoutOverride = 60, enabled = True\<rparr>]"

text \<open>
  What \<open>computeEntryTotals\<close> returns under \<open>DEFAULT_SETTINGS\<close> for an entry of an exact-match
  category (one combo, the raw itself), and tickets.
\<close>

definition soldEntry :: "Category \<Rightarrow> string \<Rightarrow> int \<Rightarrow> int \<Rightarrow> int Entry" where
  "soldEntry c r p q =
     (mkEntry c r p q)\<lparr>expanded := Some [r],
        perComboTotals := Some [\<lparr>combo = r, pc_unitPrice = p, pc_quantity = q,
                                  soldAmount = p * q, payoutRate = DEFAULT_PAYOUTS c\<rparr>],
        totalE := Some (p * q)\<rparr>"

definition mkTicket :: "string \<Rightarrow> int Entry list \<Rightarrow> bool \<Rightarrow> int Ticket" where
  "mkTicket d es del =
     \<lparr>ticket_id = ''t'', agentId = ''a'', roundT = ''morning'', date = d, entries = es,
      billTotal = sum_list (map (\<lambda>e. case totalE e of Some x \<Rightarrow> x | None \<Rightarrow> 0) es), deleted = del\<rparr>"



text \<open>
  Three tickets: 3top 123 is sold for 100 in all outside the deleted ticket, 2top 12 for 60
  on 2 January and for 41 on 3 January.
\<close>

definition riskTickets :: "int Ticket list" where
  "riskTickets =
     [mkTicket ''2025-01-02'' [soldEntry C3top ''123'' 50 2, soldEntry C2top ''12'' 60 1] False,
      mkTicket ''2025-01-03'' [soldEntry C2top ''12'' 41 1] False,
      mkTicket ''2025-01-02'' [soldEntry C3top ''123'' 500 1] True]"





text \<open>
  Two runtimes: one in Bangkok, seven hours ahead of UTC, and one five hours behind UTC;
  neither reads anything but ISO dates.
\<close>

definition bangkokRuntime :: Runtime where
  "bangkokRuntime = \<lparr>tzOffset = (\<lambda>c. 420), otherDate = (\<lambda>s. None)\<rparr>"

definition westRuntime :: Runtime where
  "westRuntime = \<lparr>tzOffset = (\<lambda>c. - 300), otherDate = (\<lambda>s. None)\<rparr>"

section \<open>Verification: number expansion\<close>

declare permute.simps [simp del]

lemma permute_0: "permute [] cur st = add_seen cur st"
  by (subst permute.simps) (simp add: add_seen_def)

lemma permute_1: "permute [a] cur st = add_seen (cur @ [a]) st"
  by (subst permute.simps) (simp add: permute_0)

lemma permute_2: "permute [a, b] cur st = add_seen (cur @ [b, a]) (add_seen (cur @ [a, b]) st)"
  by (subst permute.simps) (simp add: permute_1 upt_rec [of 0] upt_rec [of 1] numeral_2_eq_2)

lemma permute_3:
  "permute [a, b, c] cur st =
     add_seen (cur @ [c, b, a]) (add_seen (cur @ [c, a, b])
       (add_seen (cur @ [b, c, a]) (add_seen (cur @ [b, a, c])
         (add_seen (cur @ [a, c, b]) (add_seen (cur @ [a, b, c]) st)))))"
  by (subst permute.simps)
     (simp add: permute_2 upt_rec [of 0] upt_rec [of 1] upt_rec [of 2] numeral_3_eq_3)

lemma valid_cases:
  "validateNumber r c = Inr () \<longleftrightarrow> is_numeric r \<and> length r = CATEGORY_DIGIT_LENGTH c"
  by (simp add: validateNumber_def Let_def)

lemma len3: "length r = 3 \<Longrightarrow> \<exists>a b c. r = [a, b, c]"
  by (auto simp: length_Suc_conv numeral_3_eq_3)

lemma len2: "length r = 2 \<Longrightarrow> \<exists>a b. r = [a, b]"
  by (auto simp: length_Suc_conv numeral_2_eq_2)

lemma expand_valid:
  assumes "is_numeric r" "length r = CATEGORY_DIGIT_LENGTH c"
  shows "\<exists>xs. expandNumber r c = Inr xs"
  using assms by (simp add: expandNumber_def validateNumber_def Let_def)

lemma add_seen_ok: "seen_ok st \<Longrightarrow> seen_ok (add_seen x st)"
  by (auto simp: seen_ok_def add_seen_def)

lemma add_seen_set: "seen_ok st \<Longrightarrow> set (fst (add_seen x st)) = insert x (set (fst st))"
  by (auto simp: seen_ok_def add_seen_def)

lemma perms3_set:
  "set (getUniquePermutations [a, b, c]) =
     {[a, b, c], [a, c, b], [b, a, c], [b, c, a], [c, a, b], [c, b, a]}"
proof -
  have ok: "seen_ok ([], {})" by (simp add: seen_ok_def)
  show ?thesis
    unfolding getUniquePermutations_def permute_3 using ok
    by (simp add: add_seen_ok add_seen_set insert_commute)
qed

lemma perms3_distinct: "distinct (getUniquePermutations [a, b, c])"
proof -
  have ok: "seen_ok ([], {})" by (simp add: seen_ok_def)
  show ?thesis
    unfolding getUniquePermutations_def permute_3 using ok
    by (meson add_seen_ok seen_ok_def)
qed

lemma card_perms3:
  "card {[a, b, c], [a, c, b], [b, a, c], [b, c, a], [c, a, b], [c, b, a]} =
     (if card {a, b, c} = 1 then 1 else if card {a, b, c} = 2 then 3 else (6::nat))"
proof (cases "a = b")
  case ab: True
  show ?thesis
  proof (cases "b = c")
    case True
    with ab show ?thesis by simp
  next
    case False
    with ab show ?thesis by (simp add: card_insert_if)
  qed
next
  case ab: False
  show ?thesis
  proof (cases "b = c")
    case True
    with ab show ?thesis by (simp add: card_insert_if)
  next
    case bc: False
    show ?thesis
    proof (cases "a = c")
      case True
      with ab bc show ?thesis by (simp add: card_insert_if)
    next
      case False
      with ab bc show ?thesis by (simp add: card_insert_if)
    qed
  qed
qed

lemma length_perms3:
  "length (getUniquePermutations [a, b, c]) =
     (if card {a, b, c} = 1 then 1 else if card {a, b, c} = 2 then 3 else 6)"
proof -
  have "length (getUniquePermutations [a, b, c]) = card (set (getUniquePermutations [a, b, c]))"
    using perms3_distinct by (simp add: distinct_card)
  then show ?thesis
    unfolding perms3_set card_perms3 .
qed

text \<open>
  Claim C1. The claim: for a 3-digit raw, \<open>expand(raw, '3back')\<close> is the sorted list of the
  distinct permutations of the digits, and for a 2-digit raw, \<open>expand(raw, '2back')\<close> is
  \<open>raw\<close> with its reverse, as for the tod categories. The code tests the category against
  \<open>'3tod'\<close> and \<open>'2tod'\<close> only, so a back category falls through to the last line and
  comes back unexpanded: at the inputs of the repository's own tests ("should work the same
  for 3back", "should work the same for 2back") the result has one element where the tests
  expect six and two; the tod categories at the same raws give the permutations.
\<close>

theorem expandNumber_back_unexpanded:
  "expandNumber ''123'' C3back = Inr [''123''] \<and>
   expandNumber ''34'' C2back = Inr [''34''] \<and>
   expandNumber ''123'' C3tod = Inr [''123'', ''132'', ''213'', ''231'', ''312'', ''321''] \<and>
   expandNumber ''34'' C2tod = Inr [''34'', ''43'']"
  by code_simp

text \<open>
  Claim C4. For every numeric raw of the digit length of its category, over all eight
  categories, \<open>expandNumber\<close> returns a list, and \<open>getExpansionCount\<close> is its length.
\<close>

theorem expansion_count:
  assumes num: "is_numeric r" and len: "length r = CATEGORY_DIGIT_LENGTH c"
  shows "\<exists>xs. expandNumber r c = Inr xs \<and> length xs = getExpansionCount r c"
proof -
  have v: "validateNumber r c = Inr ()"
    using num len by (simp add: valid_cases)
  show ?thesis
  proof (cases "c = C3tod")
    case True
    with len have "length r = 3" by simp
    then obtain x y z where r: "r = [x, y, z]"
      using len3 [of r] by blast
    show ?thesis
      using v True unfolding r
      by (simp add: expandNumber_def getExpansionCount_def Let_def length_perms3)
  next
    case n3: False
    show ?thesis
    proof (cases "c = C2tod")
      case True
      with len have "length r = 2" by simp
      then obtain x y where r: "r = [x, y]"
        using len2 [of r] by blast
      show ?thesis
        using v True unfolding r
        by (auto simp: expandNumber_def getExpansionCount_def Let_def char_at_def)
    next
      case False
      with n3 v show ?thesis
        by (simp add: expandNumber_def getExpansionCount_def)
    qed
  qed
qed

theorem expansion_count_witness:
  "(\<exists>xs. expandNumber ''112'' C3tod = Inr xs \<and> length xs = 3) \<and>
   getExpansionCount ''112'' C3tod = 3 \<and>
   (\<exists>xs. expandNumber ''123'' C3back = Inr xs \<and> length xs = 1) \<and>
   getExpansionCount ''123'' C3back = 1"
proof -
  have g1: "getExpansionCount ''112'' C3tod = 3"
    by code_simp
  have g2: "getExpansionCount ''123'' C3back = 1"
    by code_simp
  show ?thesis
    using expansion_count [of "''112''" C3tod] expansion_count [of "''123''" C3back]
    by (simp add: is_numeric_def is_digit_def g1 g2)
qed

text \<open>
  Claim C9. \<open>expandNumber\<close> validates first. A raw with a character that is not a digit
  raises the format error; a numeric raw (one digit or more, only digits) whose length is not
  the digit length of the category raises the length error, which is not the format error;
  \<open>computeEntryTotals\<close> then ends with the same error and returns no entry. A numeric raw of
  the right length raises nothing: both functions return a value.
\<close>

theorem validation:
  "((\<exists>ch \<in> set (raw e). \<not> is_digit ch) \<longrightarrow>
      expandNumber (raw e) (category e) = Inl (InvalidFormat (raw e)) \<and>
      computeEntryTotals e s bs = Inl (InvalidFormat (raw e))) \<and>
   (is_numeric (raw e) \<and> length (raw e) \<noteq> CATEGORY_DIGIT_LENGTH (category e) \<longrightarrow>
      expandNumber (raw e) (category e) =
        Inl (InvalidLength (raw e) (length (raw e)) (category e) (CATEGORY_DIGIT_LENGTH (category e))) \<and>
      computeEntryTotals e s bs =
        Inl (InvalidLength (raw e) (length (raw e)) (category e) (CATEGORY_DIGIT_LENGTH (category e))) \<and>
      expandNumber (raw e) (category e) \<noteq> Inl (InvalidFormat (raw e))) \<and>
   (is_numeric (raw e) \<and> length (raw e) = CATEGORY_DIGIT_LENGTH (category e) \<longrightarrow>
      (\<exists>xs. expandNumber (raw e) (category e) = Inr xs) \<and>
      (\<exists>e'. computeEntryTotals e s bs = Inr e'))"
proof (intro conjI impI)
  assume bad: "\<exists>ch \<in> set (raw e). \<not> is_digit ch"
  then have "\<not> is_numeric (raw e)"
    by (auto simp: is_numeric_def list_all_iff)
  then show x: "expandNumber (raw e) (category e) = Inl (InvalidFormat (raw e))"
    by (simp add: expandNumber_def validateNumber_def)
  then show "computeEntryTotals e s bs = Inl (InvalidFormat (raw e))"
    by (simp add: computeEntryTotals_def)
next
  assume len: "is_numeric (raw e) \<and> length (raw e) \<noteq> CATEGORY_DIGIT_LENGTH (category e)"
  then show x: "expandNumber (raw e) (category e) =
        Inl (InvalidLength (raw e) (length (raw e)) (category e) (CATEGORY_DIGIT_LENGTH (category e)))"
    by (simp add: expandNumber_def validateNumber_def)
  then show "computeEntryTotals e s bs =
        Inl (InvalidLength (raw e) (length (raw e)) (category e) (CATEGORY_DIGIT_LENGTH (category e)))"
    by (simp add: computeEntryTotals_def)
  from x show "expandNumber (raw e) (category e) \<noteq> Inl (InvalidFormat (raw e))"
    by simp
next
  assume ok: "is_numeric (raw e) \<and> length (raw e) = CATEGORY_DIGIT_LENGTH (category e)"
  then show x: "\<exists>xs. expandNumber (raw e) (category e) = Inr xs"
    by (simp add: expand_valid)
  then show "\<exists>e'. computeEntryTotals e s bs = Inr e'"
    by (auto simp: computeEntryTotals_def Let_def)
qed

theorem validation_witness:
  "computeEntryTotals (mkEntry C3top ''12a'' 100 1) DEFAULT_SETTINGS [] = Inl (InvalidFormat ''12a'') \<and>
   computeEntryTotals (mkEntry C2top ''123'' 100 1) DEFAULT_SETTINGS [] = Inl (InvalidLength ''123'' 3 C2top 2) \<and>
   (\<exists>e'. computeEntryTotals (mkEntry C3top ''123'' 100 1) DEFAULT_SETTINGS [] = Inr e')"
  using validation [of "mkEntry C3top ''12a'' 100 1" DEFAULT_SETTINGS "[]"]
    validation [of "mkEntry C2top ''123'' 100 1" DEFAULT_SETTINGS "[]"]
    validation [of "mkEntry C3top ''123'' 100 1" DEFAULT_SETTINGS "[]"]
  by (simp add: mkEntry_def is_numeric_def is_digit_def)

section \<open>Verification: entry computation\<close>

lemma foldl_sold:
  "foldl (\<lambda>sum c. sum + soldAmount c) a ps = foldl (+) a (map soldAmount ps)"
  by (induction ps arbitrary: a) simp_all

text \<open>
  Claim C2. For an entry with a valid raw, \<open>computeEntryTotals\<close> returns an entry with one
  perComboTotal per combo of the expansion, in order, each with
  \<open>soldAmount = unitPrice \<times> quantity\<close>. Its total is \<open>unitPrice \<times> quantity\<close> when the
  category is 3tod or 2tod, whatever the number of combos; for each of the six other
  categories it is the sum of \<open>soldAmount\<close> over these perComboTotals, added up from 0 in
  their order as \<open>reduce\<close> does.
\<close>

theorem entry_total:
  assumes num: "is_numeric (raw e)" and len: "length (raw e) = CATEGORY_DIGIT_LENGTH (category e)"
  shows "\<exists>e' xs pcts. computeEntryTotals e s bs = Inr e' \<and>
           expandNumber (raw e) (category e) = Inr xs \<and>
           perComboTotals e' = Some pcts \<and> map combo pcts = xs \<and>
           map soldAmount pcts = replicate (length xs) (unitPrice e * quantity e) \<and>
           totalE e' = Some (if category e = C3tod \<or> category e = C2tod
                             then unitPrice e * quantity e
                             else jsSum (map soldAmount pcts))"
proof -
  obtain xs where xs: "expandNumber (raw e) (category e) = Inr xs"
    using expand_valid [OF num len] by blast
  define mk where "mk = (\<lambda>cmb. \<lparr>combo = cmb, pc_unitPrice = unitPrice e, pc_quantity = quantity e,
      soldAmount = unitPrice e * quantity e,
      payoutRate = (case findBlockedNumber cmb (category e) bs of
                      Some b \<Rightarrow> payoutOverride b | None \<Rightarrow> payouts s (category e))\<rparr>)"
  define tot where "tot = (if category e = C3tod \<or> category e = C2tod
                           then unitPrice e * quantity e
                           else jsSum (map soldAmount (map mk xs)))"
  have run: "computeEntryTotals e s bs =
      Inr (e\<lparr>expanded := Some xs, perComboTotals := Some (map mk xs), totalE := Some tot\<rparr>)"
    by (simp add: computeEntryTotals_def xs Let_def mk_def tot_def foldl_sold jsSum_def)
  have c: "map combo (map mk xs) = xs"
    by (simp add: mk_def comp_def)
  have a: "map soldAmount (map mk xs) = replicate (length xs) (unitPrice e * quantity e)"
    by (simp add: mk_def comp_def map_replicate_const)
  show ?thesis
    using run xs c a by (simp add: tot_def)
qed

theorem entry_total_witness:
  "(\<exists>e' pcts. computeEntryTotals (mkEntry C3tod ''123'' 10 1) DEFAULT_SETTINGS [] = Inr e' \<and>
      perComboTotals e' = Some pcts \<and>
      map combo pcts = [''123'', ''132'', ''213'', ''231'', ''312'', ''321''] \<and>
      map soldAmount pcts = [10, 10, 10, 10, 10, 10] \<and> totalE e' = Some 10) \<and>
   (\<exists>e' pcts. computeEntryTotals (mkEntry C3top ''123'' 100 2) DEFAULT_SETTINGS [] = Inr e' \<and>
      perComboTotals e' = Some pcts \<and> map combo pcts = [''123''] \<and>
      map soldAmount pcts = [200] \<and> totalE e' = Some 200)"
proof -
  let ?a = "mkEntry C3tod ''123'' 10 1" and ?b = "mkEntry C3top ''123'' 100 2"
  have xa: "expandNumber (raw ?a) (category ?a) =
      Inr [''123'', ''132'', ''213'', ''231'', ''312'', ''321'']"
    unfolding mkEntry_def by code_simp
  have xb: "expandNumber (raw ?b) (category ?b) = Inr [''123'']"
    unfolding mkEntry_def by code_simp
  have va: "is_numeric (raw ?a)" "length (raw ?a) = CATEGORY_DIGIT_LENGTH (category ?a)"
    and vb: "is_numeric (raw ?b)" "length (raw ?b) = CATEGORY_DIGIT_LENGTH (category ?b)"
    by (simp_all add: mkEntry_def is_numeric_def is_digit_def)
  from entry_total [OF va, of DEFAULT_SETTINGS "[]"] xa
  have a: "\<exists>e' pcts. computeEntryTotals ?a DEFAULT_SETTINGS [] = Inr e' \<and>
      perComboTotals e' = Some pcts \<and>
      map combo pcts = [''123'', ''132'', ''213'', ''231'', ''312'', ''321''] \<and>
      map soldAmount pcts = [10, 10, 10, 10, 10, 10] \<and> totalE e' = Some 10"
    by (auto simp: mkEntry_def numeral_eq_Suc)
  from entry_total [OF vb, of DEFAULT_SETTINGS "[]"] xb
  have b: "\<exists>e' pcts. computeEntryTotals ?b DEFAULT_SETTINGS [] = Inr e' \<and>
      perComboTotals e' = Some pcts \<and> map combo pcts = [''123''] \<and>
      map soldAmount pcts = [200] \<and> totalE e' = Some 200"
    by (auto simp: mkEntry_def jsSum_def)
  from a b show ?thesis ..
qed

lemma find_first:
  assumes "i < length bs" "P (bs ! i)" "\<forall>j < i. \<not> P (bs ! j)"
  shows "find P bs = Some (bs ! i)"
  using assms by (auto simp: find_Some_iff)

text \<open>
  Claim C8. For an entry with a valid raw, the perComboTotals of the computed entry are the
  combos of the expansion, in order. Each has \<open>soldAmount = unitPrice \<times> quantity\<close> whatever
  the blocked numbers are; its \<open>payoutRate\<close> is the \<open>payoutOverride\<close> of the first blocked
  number of the list that is enabled and has the combo as number and the category of the
  entry, and \<open>settings.payouts[category]\<close> when no blocked number of the list is such (a
  disabled one, or one for another category or number, is none).
\<close>

theorem payout_rate:
  assumes num: "is_numeric (raw e)" and len: "length (raw e) = CATEGORY_DIGIT_LENGTH (category e)"
  shows "\<exists>e' xs pcts. computeEntryTotals e s bs = Inr e' \<and>
           expandNumber (raw e) (category e) = Inr xs \<and> perComboTotals e' = Some pcts \<and>
           map combo pcts = xs \<and>
           (\<forall>p \<in> set pcts.
              soldAmount p = unitPrice e * quantity e \<and>
              (\<forall>i < length bs.
                 blockMatches (category e) (combo p) (bs ! i) \<and>
                 (\<forall>j < i. \<not> blockMatches (category e) (combo p) (bs ! j)) \<longrightarrow>
                 payoutRate p = payoutOverride (bs ! i)) \<and>
              ((\<forall>b \<in> set bs. \<not> blockMatches (category e) (combo p) b) \<longrightarrow>
                 payoutRate p = payouts s (category e)))"
proof -
  obtain xs where xs: "expandNumber (raw e) (category e) = Inr xs"
    using expand_valid [OF num len] by blast
  define rate where "rate = (\<lambda>cmb. case findBlockedNumber cmb (category e) bs of
      Some b \<Rightarrow> payoutOverride b | None \<Rightarrow> payouts s (category e))"
  define mk where "mk = (\<lambda>cmb. \<lparr>combo = cmb, pc_unitPrice = unitPrice e, pc_quantity = quantity e,
      soldAmount = unitPrice e * quantity e, payoutRate = rate cmb\<rparr>)"
  obtain e' where run: "computeEntryTotals e s bs = Inr e'"
    by (simp add: computeEntryTotals_def xs Let_def)
  have pcts: "perComboTotals e' = Some (map mk xs)"
    using run by (auto simp: computeEntryTotals_def xs Let_def mk_def rate_def)
  have fb: "findBlockedNumber cmb (category e) bs = find (blockMatches (category e) cmb) bs" for cmb
    unfolding findBlockedNumber_def blockMatches_def
    by (rule arg_cong [where f = "\<lambda>P. find P bs"]) auto
  have r1: "rate cmb = payoutOverride (bs ! i)"
    if "i < length bs" "blockMatches (category e) cmb (bs ! i)"
       "\<forall>j < i. \<not> blockMatches (category e) cmb (bs ! j)" for cmb i
    using find_first [of i bs "blockMatches (category e) cmb"] that
    by (simp add: rate_def fb)
  have r2: "rate cmb = payouts s (category e)"
    if "\<forall>b \<in> set bs. \<not> blockMatches (category e) cmb b" for cmb
    using that by (simp add: rate_def fb find_None_iff [THEN iffD2])
  have "map combo (map mk xs) = xs"
    by (simp add: mk_def comp_def)
  moreover have "\<forall>p \<in> set (map mk xs).
      soldAmount p = unitPrice e * quantity e \<and>
      (\<forall>i < length bs.
         blockMatches (category e) (combo p) (bs ! i) \<and>
         (\<forall>j < i. \<not> blockMatches (category e) (combo p) (bs ! j)) \<longrightarrow>
         payoutRate p = payoutOverride (bs ! i)) \<and>
      ((\<forall>b \<in> set bs. \<not> blockMatches (category e) (combo p) b) \<longrightarrow>
         payoutRate p = payouts s (category e))"
    using r1 r2 by (auto simp: mk_def)
  ultimately show ?thesis
    using run xs pcts by blast
qed

theorem payout_rate_witness:
  "\<exists>e' pcts. computeEntryTotals (mkEntry C3tod ''123'' 10 2) DEFAULT_SETTINGS sampleBlocked = Inr e' \<and>
     perComboTotals e' = Some pcts \<and>
     (\<exists>p \<in> set pcts. combo p = ''123'' \<and> soldAmount p = 20 \<and> payoutRate p = 50) \<and>
     (\<exists>p \<in> set pcts. combo p = ''321'' \<and> soldAmount p = 20 \<and> payoutRate p = 130)"
proof -
  let ?e = "mkEntry C3tod ''123'' 10 2"
  have ex: "expandNumber (raw ?e) (category ?e) =
      Inr [''123'', ''132'', ''213'', ''231'', ''312'', ''321'']"
    unfolding mkEntry_def by code_simp
  have "is_numeric (raw ?e)" "length (raw ?e) = CATEGORY_DIGIT_LENGTH (category ?e)"
    by (simp_all add: mkEntry_def is_numeric_def is_digit_def)
  from payout_rate [OF this, of DEFAULT_SETTINGS sampleBlocked]
  obtain e' xs pcts where run: "computeEntryTotals ?e DEFAULT_SETTINGS sampleBlocked = Inr e'"
    and xs: "expandNumber (raw ?e) (category ?e) = Inr xs"
    and pcts: "perComboTotals e' = Some pcts"
    and combos: "map combo pcts = xs"
    and all: "\<forall>p \<in> set pcts.
              soldAmount p = unitPrice ?e * quantity ?e \<and>
              (\<forall>i < length sampleBlocked.
                 blockMatches (category ?e) (combo p) (sampleBlocked ! i) \<and>
                 (\<forall>j < i. \<not> blockMatches (category ?e) (combo p) (sampleBlocked ! j)) \<longrightarrow>
                 payoutRate p = payoutOverride (sampleBlocked ! i)) \<and>
              ((\<forall>b \<in> set sampleBlocked. \<not> blockMatches (category ?e) (combo p) b) \<longrightarrow>
                 payoutRate p = payouts DEFAULT_SETTINGS (category ?e))"
    by blast
  from xs ex combos have "set (map combo pcts) = {''123'', ''132'', ''213'', ''231'', ''312'', ''321''}"
    by auto
  then have "''123'' \<in> combo ` set pcts" "''321'' \<in> combo ` set pcts"
    by simp_all
  then obtain p1 p2 where p1: "p1 \<in> set pcts" "combo p1 = ''123''"
    and p2: "p2 \<in> set pcts" "combo p2 = ''321''"
    by (auto simp: image_iff)
  have s1: "soldAmount p1 = 20" and s2: "soldAmount p2 = 20"
    using all p1(1) p2(1) by (simp_all add: mkEntry_def)
  from all p1(1) have "(2::nat) < length sampleBlocked \<longrightarrow>
      blockMatches (category ?e) (combo p1) (sampleBlocked ! 2) \<and>
      (\<forall>j < 2. \<not> blockMatches (category ?e) (combo p1) (sampleBlocked ! j)) \<longrightarrow>
      payoutRate p1 = payoutOverride (sampleBlocked ! 2)"
    by blast
  then have r1: "payoutRate p1 = 50"
    by (simp add: p1(2) sampleBlocked_def blockMatches_def mkEntry_def less_Suc_eq numeral_2_eq_2)
  from all p2(1) have "(\<forall>b \<in> set sampleBlocked. \<not> blockMatches (category ?e) (combo p2) b) \<longrightarrow>
      payoutRate p2 = payouts DEFAULT_SETTINGS (category ?e)"
    by blast
  then have r2: "payoutRate p2 = 130"
    by (simp add: p2(2) sampleBlocked_def blockMatches_def mkEntry_def DEFAULT_SETTINGS_def)
  from run pcts p1 p2 s1 s2 r1 r2 show ?thesis
    by blast
qed

section \<open>Verification: actual payout\<close>

lemma fold_entry_live:
  "fold (\<lambda>entry acc. case perComboTotals entry of None \<Rightarrow> acc | Some pcts \<Rightarrow> fold (f entry) pcts acc) es acc =
   fold (\<lambda>(e, p). f e p)
     (concat (map (\<lambda>e. case perComboTotals e of None \<Rightarrow> [] | Some pcts \<Rightarrow> map (Pair e) pcts) es)) acc"
proof (induction es arbitrary: acc)
  case Nil
  show ?case by simp
next
  case (Cons e es)
  show ?case
    by (cases "perComboTotals e") (simp_all add: Cons.IH fold_map comp_def)
qed

lemma fold_tickets_live:
  "fold (\<lambda>ticket acc.
      if deleted ticket then acc
      else fold (\<lambda>entry acc. case perComboTotals entry of
                                 None \<Rightarrow> acc
                               | Some pcts \<Rightarrow> fold (f entry) pcts acc) (entries ticket) acc)
     tickets acc =
   fold (\<lambda>(e, p). f e p) (liveCombos tickets) acc"
proof (induction tickets arbitrary: acc)
  case Nil
  show ?case by (simp add: liveCombos_def)
next
  case (Cons t ts)
  have step: "liveCombos (t # ts) =
      (if deleted t then []
       else concat (map (\<lambda>e. case perComboTotals e of None \<Rightarrow> [] | Some pcts \<Rightarrow> map (Pair e) pcts)
                        (entries t))) @ liveCombos ts"
    by (simp add: liveCombos_def)
  show ?case
    unfolding step by (simp add: Cons.IH fold_entry_live)
qed








section \<open>Verification: per-number totals\<close>





section \<open>Verification: risky numbers\<close>

lemma category_str_sep:
  "category_str c @ s # k = category_str c' @ s # k' \<Longrightarrow> s \<notin> set (category_str c) \<Longrightarrow>
   s \<notin> set (category_str c') \<Longrightarrow> c = c' \<and> k = k'"
  by (cases c; cases c') auto

lemma colon_key_inj:
  "category_str c @ CHR '':'' # k = category_str c' @ CHR '':'' # k' \<longleftrightarrow> c = c' \<and> k = k'"
proof
  assume "category_str c @ CHR '':'' # k = category_str c' @ CHR '':'' # k'"
  moreover have "CHR '':'' \<notin> set (category_str d)" for d
    by (cases d) simp_all
  ultimately show "c = c' \<and> k = k'"
    using category_str_sep [of c "CHR '':''" k c' k'] by blast
qed auto

lemma runningSum_snoc:
  "runningSum (as @ [a]) = Some (case runningSum as of None \<Rightarrow> a | Some s \<Rightarrow> s + a)"
  by (cases as) simp_all

lemma runningSum_None: "runningSum as = None \<longleftrightarrow> as = []"
  by (cases as) simp_all

lemma soldIn_snoc:
  "soldIn (ys @ [(e, p)]) c k =
     (if category e = c \<and> combo p = k
      then Some (case soldIn ys c k of None \<Rightarrow> soldAmount p | Some s \<Rightarrow> s + soldAmount p)
      else soldIn ys c k)"
  by (simp add: soldIn_def soldAmountsOf_def runningSum_snoc)

lemma agg_inv_step:
  assumes inv: "agg_inv m ys"
  shows "agg_inv (addComboSale e p m) (ys @ [(e, p)])"
proof -
  let ?K = "category_str (category e) @ '':'' @ combo p"
  from inv have dist: "distinct (map fst m)"
    and val: "\<And>K v. map_of m K = Some v \<Longrightarrow>
         K = category_str (cs_category v) @ '':'' @ cs_combo v \<and>
         soldIn ys (cs_category v) (cs_combo v) = Some (cs_soldAmount v)"
    and dom: "\<And>c k. soldIn ys c k \<noteq> None \<Longrightarrow> map_of m (category_str c @ '':'' @ k) \<noteq> None"
    unfolding agg_inv_def by blast+
  obtain v0 where m': "addComboSale e p m = AList.update ?K v0 m"
    and v0c: "cs_category v0 = category e" and v0k: "cs_combo v0 = combo p"
    and v0s: "soldIn (ys @ [(e, p)]) (category e) (combo p) = Some (cs_soldAmount v0)"
  proof (cases "map_of m ?K")
    case None
    then have absent: "soldIn ys (category e) (combo p) = None"
      using dom by blast
    let ?v = "\<lparr>cs_combo = combo p, cs_category = category e, cs_soldAmount = soldAmount p\<rparr>"
    have "addComboSale e p m = AList.update ?K ?v m"
      using None by (simp add: addComboSale_def Let_def)
    moreover have "soldIn (ys @ [(e, p)]) (category e) (combo p) = Some (cs_soldAmount ?v)"
      using absent by (simp add: soldIn_snoc)
    ultimately show ?thesis
      by (intro that [of ?v]) simp_all
  next
    case (Some ex)
    from val [OF Some] have exk: "cs_category ex = category e" "cs_combo ex = combo p"
      and exs: "soldIn ys (category e) (combo p) = Some (cs_soldAmount ex)"
      by (auto simp: colon_key_inj)
    let ?v = "ex\<lparr>cs_soldAmount := cs_soldAmount ex + soldAmount p\<rparr>"
    have "addComboSale e p m = AList.update ?K ?v m"
      using Some by (simp add: addComboSale_def Let_def)
    moreover have "soldIn (ys @ [(e, p)]) (category e) (combo p) = Some (cs_soldAmount ?v)"
      using exs by (simp add: soldIn_snoc)
    ultimately show ?thesis
      using exk by (intro that [of ?v]) simp_all
  qed
  show ?thesis
    unfolding agg_inv_def m'
  proof (intro conjI allI impI)
    show "distinct (map fst (AList.update ?K v0 m))"
      using dist by (simp add: distinct_update)
  next
    fix K v
    assume look: "map_of (AList.update ?K v0 m) K = Some v"
    show "K = category_str (cs_category v) @ '':'' @ cs_combo v"
      using look val v0c v0k by (auto simp: update_conv' split: if_splits)
    show "soldIn (ys @ [(e, p)]) (cs_category v) (cs_combo v) = Some (cs_soldAmount v)"
    proof (cases "K = ?K")
      case True
      with look have "v = v0" by (simp add: update_conv')
      then show ?thesis
        using v0c v0k v0s by simp
    next
      case False
      with look have old: "map_of m K = Some v" by (simp add: update_conv')
      with val [OF old] False have "\<not> (category e = cs_category v \<and> combo p = cs_combo v)"
        by auto
      with val [OF old] show ?thesis
        by (auto simp: soldIn_snoc)
    qed
  next
    fix c k
    assume "soldIn (ys @ [(e, p)]) c k \<noteq> None"
    then show "map_of (AList.update ?K v0 m) (category_str c @ '':'' @ k) \<noteq> None"
      using dom by (auto simp: update_conv' soldIn_snoc split: if_splits)
  qed
qed

lemma agg_inv_fold:
  "agg_inv m ys \<Longrightarrow> agg_inv (fold (\<lambda>(e, p). addComboSale e p) xs m) (ys @ xs)"
proof (induction xs arbitrary: m ys)
  case Nil
  then show ?case by simp
next
  case (Cons x xs)
  obtain e p where x: "x = (e, p)" by (cases x)
  from Cons.prems have "agg_inv (addComboSale e p m) (ys @ [(e, p)])"
    by (rule agg_inv_step)
  from Cons.IH [OF this] show ?case
    by (simp add: x)
qed

lemma aggregate_live:
  "aggregateComboSales tickets = fold (\<lambda>(e, p). addComboSale e p) (liveCombos tickets) []"
  unfolding aggregateComboSales_def by (rule fold_tickets_live)

lemma aggregate_inv: "agg_inv (aggregateComboSales tickets) (liveCombos tickets)"
proof -
  have "agg_inv [] ([] :: ('a Entry \<times> 'a PerComboTotal) list)"
    by (simp add: agg_inv_def soldIn_def soldAmountsOf_def)
  from agg_inv_fold [OF this, of "liveCombos tickets"] show ?thesis
    by (simp add: aggregate_live)
qed

lemma agg_inv_mem:
  assumes inv: "agg_inv m L"
  shows "(K, v) \<in> set m \<longleftrightarrow>
           K = category_str (cs_category v) @ '':'' @ cs_combo v \<and>
           soldIn L (cs_category v) (cs_combo v) = Some (cs_soldAmount v)"
proof
  assume "(K, v) \<in> set m"
  with inv have "map_of m K = Some v"
    by (simp add: agg_inv_def)
  with inv show "K = category_str (cs_category v) @ '':'' @ cs_combo v \<and>
           soldIn L (cs_category v) (cs_combo v) = Some (cs_soldAmount v)"
    unfolding agg_inv_def by blast
next
  assume r: "K = category_str (cs_category v) @ '':'' @ cs_combo v \<and>
           soldIn L (cs_category v) (cs_combo v) = Some (cs_soldAmount v)"
  with inv obtain v' where v': "map_of m K = Some v'"
    unfolding agg_inv_def by (metis option.distinct(1) option.exhaust)
  with inv have "K = category_str (cs_category v') @ '':'' @ cs_combo v'"
    and s: "soldIn L (cs_category v') (cs_combo v') = Some (cs_soldAmount v')"
    unfolding agg_inv_def by blast+
  with r have "cs_category v' = cs_category v \<and> cs_combo v' = cs_combo v"
    by (simp add: colon_key_inj)
  with r s have "v' = v"
    by (simp add: ComboSale.equality)
  with v' show "(K, v) \<in> set m"
    by (simp add: map_of_SomeD)
qed

lemma risky_fold:
  "fold (\<lambda>(k, data) riskyNumbers. if P data then riskyNumbers @ [mk data] else riskyNumbers) xs acc =
   acc @ map (\<lambda>(k, data). mk data) (filter (\<lambda>(k, data). P data) xs)"
  by (induction xs arbitrary: acc) (auto simp: case_prod_unfold)

lemma findRiskyNumbers_sorted_filter:
  "findRiskyNumbers tickets threshold =
     sort_cmp (\<lambda>a b. \<not> (0 < rn_soldAmount b - rn_soldAmount a))
       (map (\<lambda>(k, data). \<lparr>rn_combo = cs_combo data, rn_category = cs_category data,
                            rn_soldAmount = cs_soldAmount data, rn_threshold = threshold\<rparr>)
            (filter (\<lambda>(k, data). cs_soldAmount data > threshold) (aggregateComboSales tickets)))"
  unfolding findRiskyNumbers_def Let_def
  by (simp add: risky_fold)

lemma mset_insort_cmp: "mset (insort_cmp R x ys) = add_mset x (mset ys)"
  by (induction ys) simp_all

lemma mset_sort_cmp: "mset (sort_cmp R xs) = mset xs"
  unfolding sort_cmp_def by (induction xs) (simp_all add: mset_insort_cmp)

lemma set_sort_cmp: "set (sort_cmp R xs) = set xs"
  using mset_sort_cmp [of R xs] by (metis set_mset_mset)

lemma distinct_map_sort_cmp:
  "distinct (map f (sort_cmp R xs)) \<longleftrightarrow> distinct (map f xs)"
proof -
  have "mset (map f (sort_cmp R xs)) = mset (map f xs)"
    by (simp add: mset_sort_cmp)
  then show ?thesis
    by (rule mset_eq_imp_distinct_iff)
qed

lemma sorted_insort_cmp:
  assumes tot: "\<And>a b. a \<in> insert x (set ys) \<Longrightarrow> b \<in> insert x (set ys) \<Longrightarrow> R a b \<or> R b a"
    and trans: "\<And>a b c. a \<in> insert x (set ys) \<Longrightarrow> b \<in> insert x (set ys) \<Longrightarrow>
                 c \<in> insert x (set ys) \<Longrightarrow> R a b \<Longrightarrow> R b c \<Longrightarrow> R a c"
    and sorted: "sorted_wrt R ys"
  shows "sorted_wrt R (insort_cmp R x ys)"
  using assms
proof (induction ys)
  case Nil
  show ?case by simp
next
  case (Cons y ys)
  show ?case
  proof (cases "R x y")
    case True
    have "R x z" if "z \<in> set ys" for z
    proof -
      from Cons.prems(3) that have "R y z" by simp
      with True that show ?thesis
        using Cons.prems(2) [of x y z] by simp
    qed
    with True Cons.prems(3) show ?thesis by auto
  next
    case False
    then have yx: "R y x"
      using Cons.prems(1) [of x y] by simp
    have tail: "sorted_wrt R (insort_cmp R x ys)"
    proof (rule Cons.IH)
      show "R a b \<or> R b a" if "a \<in> insert x (set ys)" "b \<in> insert x (set ys)" for a b
        using that Cons.prems(1) [of a b] by auto
      show "R a c" if "a \<in> insert x (set ys)" "b \<in> insert x (set ys)" "c \<in> insert x (set ys)"
        "R a b" "R b c" for a b c
        using that Cons.prems(2) [of a b c] by auto
      show "sorted_wrt R ys"
        using Cons.prems(3) by simp
    qed
    have "set (insort_cmp R x ys) = insert x (set ys)"
      using mset_insort_cmp [of R x ys] by (metis set_mset_add_mset_insert set_mset_mset)
    with yx Cons.prems(3) have "\<forall>z \<in> set (insort_cmp R x ys). R y z"
      by auto
    with False tail show ?thesis by simp
  qed
qed

lemma sorted_sort_cmp:
  assumes tot: "\<And>a b. a \<in> set xs \<Longrightarrow> b \<in> set xs \<Longrightarrow> R a b \<or> R b a"
    and trans: "\<And>a b c. a \<in> set xs \<Longrightarrow> b \<in> set xs \<Longrightarrow> c \<in> set xs \<Longrightarrow> R a b \<Longrightarrow> R b c \<Longrightarrow> R a c"
  shows "sorted_wrt R (sort_cmp R xs)"
  using assms
proof (induction xs)
  case Nil
  show ?case by (simp add: sort_cmp_def)
next
  case (Cons x xs)
  have step: "sort_cmp R (x # xs) = insort_cmp R x (sort_cmp R xs)"
    by (simp add: sort_cmp_def)
  have tail: "sorted_wrt R (sort_cmp R xs)"
  proof (rule Cons.IH)
    show "R a b \<or> R b a" if "a \<in> set xs" "b \<in> set xs" for a b
      using that Cons.prems(1) [of a b] by simp
    show "R a c" if "a \<in> set xs" "b \<in> set xs" "c \<in> set xs" "R a b" "R b c" for a b c
      using that Cons.prems(2) [of a b c] by simp
  qed
  show ?case
    unfolding step
  proof (rule sorted_insort_cmp [OF _ _ tail])
    show "R a b \<or> R b a"
      if "a \<in> insert x (set (sort_cmp R xs))" "b \<in> insert x (set (sort_cmp R xs))" for a b
      using that Cons.prems(1) [of a b] by (simp add: set_sort_cmp)
    show "R a c"
      if "a \<in> insert x (set (sort_cmp R xs))" "b \<in> insert x (set (sort_cmp R xs))"
        "c \<in> insert x (set (sort_cmp R xs))" "R a b" "R b c" for a b c
      using that Cons.prems(2) [of a b c] by (simp add: set_sort_cmp)
  qed
qed

lemma agg_inv_distinct_pairs:
  assumes inv: "agg_inv m L"
  shows "distinct (map (\<lambda>(K, v). (cs_category v, cs_combo v)) m)"
proof -
  from inv have dk: "distinct (map fst m)"
    by (simp add: agg_inv_def)
  then have dm: "distinct m"
    by (simp add: distinct_map)
  have "inj_on (\<lambda>(K, v). (cs_category v, cs_combo v)) (set m)"
  proof (rule inj_onI)
    fix x y
    assume x: "x \<in> set m" and y: "y \<in> set m"
      and eq: "(\<lambda>(K, v). (cs_category v, cs_combo v)) x = (\<lambda>(K, v). (cs_category v, cs_combo v)) y"
    obtain K v where xv: "x = (K, v)" by (cases x)
    obtain K' v' where yv: "y = (K', v')" by (cases y)
    from x y have "K = category_str (cs_category v) @ '':'' @ cs_combo v"
      "K' = category_str (cs_category v') @ '':'' @ cs_combo v'"
      unfolding xv yv agg_inv_mem [OF inv] by blast+
    with eq have "K = K'"
      by (simp add: xv yv)
    with dk x y have "v = v'"
      unfolding xv yv by (metis map_of_is_SomeI option.inject)
    with \<open>K = K'\<close> show "x = y"
      by (simp add: xv yv)
  qed
  with dm show ?thesis
    by (simp add: distinct_map)
qed

lemma descendingComparatorD:
  assumes dc: "descendingComparator S" and a: "a \<in> S" and b: "b \<in> S"
  shows "(0 < b - a) = (a < b)" and "\<not> (a < b \<and> b < a)"
    and "c \<in> S \<Longrightarrow> \<not> a < b \<and> \<not> b < c \<longrightarrow> \<not> a < c"
proof -
  note d = dc [unfolded descendingComparator_def]
  show "(0 < b - a) = (a < b)"
    by (rule d [THEN conjunct1, THEN bspec, THEN bspec, OF a b])
  show "\<not> (a < b \<and> b < a)"
    by (rule d [THEN conjunct2, THEN conjunct1, THEN bspec, THEN bspec, OF a b])
  show "\<not> a < b \<and> \<not> b < c \<longrightarrow> \<not> a < c" if c: "c \<in> S"
    by (rule d [THEN conjunct2, THEN conjunct2, THEN bspec, THEN bspec, THEN bspec, OF a b c])
qed

lemma sorted_risky:
  fixes xs :: "('n::{minus,zero,ord}) RiskyNumber list"
  assumes dc: "descendingComparator (rn_soldAmount ` set xs)"
  shows "sorted_wrt (\<lambda>a b. \<not> rn_soldAmount a < rn_soldAmount b)
           (sort_cmp (\<lambda>a b. \<not> (0 < rn_soldAmount b - rn_soldAmount a)) xs)"
proof -
  let ?R = "\<lambda>a b :: 'n RiskyNumber. \<not> (0 < rn_soldAmount b - rn_soldAmount a)"
  let ?Q = "\<lambda>a b :: 'n RiskyNumber. \<not> rn_soldAmount a < rn_soldAmount b"
  have mem: "rn_soldAmount a \<in> rn_soldAmount ` set xs" if "a \<in> set xs" for a
    using that by (rule imageI)
  have R: "?R a b = ?Q a b" if "a \<in> set xs" "b \<in> set xs" for a b
    by (rule arg_cong [where f = Not, OF descendingComparatorD(1) [OF dc mem mem, OF that]])
  have "sorted_wrt ?R (sort_cmp ?R xs)"
  proof (rule sorted_sort_cmp)
    fix a b
    assume ab: "a \<in> set xs" "b \<in> set xs"
    have "?Q a b \<or> ?Q b a"
      using descendingComparatorD(2) [OF dc mem mem, OF ab] by blast
    then show "?R a b \<or> ?R b a"
      unfolding R [OF ab] R [OF ab(2) ab(1)] .
  next
    fix a b c
    assume abc: "a \<in> set xs" "b \<in> set xs" "c \<in> set xs" and r: "?R a b" "?R b c"
    from r have "?Q a b" "?Q b c"
      unfolding R [OF abc(1,2)] R [OF abc(2,3)] .
    then have "?Q a c"
      using descendingComparatorD(3) [OF dc mem mem mem, OF abc] by blast
    then show "?R a c"
      unfolding R [OF abc(1,3)] .
  qed
  then show ?thesis
  proof (rule sorted_wrt_mono_rel [rotated])
    fix a b
    assume m: "a \<in> set (sort_cmp ?R xs)" "b \<in> set (sort_cmp ?R xs)" and r: "?R a b"
    from m have ab: "a \<in> set xs" "b \<in> set xs"
      unfolding set_sort_cmp .
    from r show "?Q a b"
      unfolding R [OF ab] .
  qed
qed

text \<open>
  Claim C5. For every list of tickets and every threshold, the (category, combo, soldAmount)
  triples of \<open>findRiskyNumbers\<close> are exactly the pairs that occur among the perComboTotals of
  the tickets that are not soft-deleted and whose \<open>soldAmount\<close>, summed over these in their
  order, is strictly greater than the threshold, each with that sum: a pair whose sum equals
  the threshold is left out (the test is \<open>threshold < sum\<close>). Each pair comes once. The
  list is in descending order of \<open>soldAmount\<close>, no element being less than a later one, when
  the comparator \<open>b.soldAmount - a.soldAmount\<close> is consistent on the sums, as it is on numbers
  that are not NaN.
\<close>

theorem risky_numbers:
  "set (map (\<lambda>r. (rn_category r, rn_combo r, rn_soldAmount r)) (findRiskyNumbers tickets threshold)) =
     {(c, k, s) | c k s. soldIn (liveCombos tickets) c k = Some s \<and> threshold < s} \<and>
   distinct (map (\<lambda>r. (rn_category r, rn_combo r)) (findRiskyNumbers tickets threshold)) \<and>
   (descendingComparator (set (map rn_soldAmount (findRiskyNumbers tickets threshold))) \<longrightarrow>
      sorted_wrt (\<lambda>a b. \<not> a < b) (map rn_soldAmount (findRiskyNumbers tickets threshold)))"
proof (intro conjI impI)
  let ?m = "aggregateComboSales tickets"
  let ?L = "liveCombos tickets"
  note inv = aggregate_inv [of tickets]
  show "set (map (\<lambda>r. (rn_category r, rn_combo r, rn_soldAmount r)) (findRiskyNumbers tickets threshold)) =
     {(c, k, s) | c k s. soldIn ?L c k = Some s \<and> threshold < s}"
    (is "?lhs = ?rhs")
  proof (rule set_eqI)
    fix x :: "Category \<times> string \<times> 'a"
    obtain c k a where x: "x = (c, k, a)" by (cases x)
    have "x \<in> ?lhs \<longleftrightarrow> (\<exists>K v. (K, v) \<in> set ?m \<and> cs_soldAmount v > threshold \<and>
        c = cs_category v \<and> k = cs_combo v \<and> a = cs_soldAmount v)"
      unfolding findRiskyNumbers_sorted_filter x by (auto simp: image_iff set_sort_cmp)
    also have "\<dots> \<longleftrightarrow> soldIn ?L c k = Some a \<and> threshold < a"
    proof
      assume "\<exists>K v. (K, v) \<in> set ?m \<and> cs_soldAmount v > threshold \<and>
        c = cs_category v \<and> k = cs_combo v \<and> a = cs_soldAmount v"
      then show "soldIn ?L c k = Some a \<and> threshold < a"
        unfolding agg_inv_mem [OF inv] by auto
    next
      assume r: "soldIn ?L c k = Some a \<and> threshold < a"
      let ?v = "\<lparr>cs_combo = k, cs_category = c, cs_soldAmount = a\<rparr>"
      from r have "(category_str c @ '':'' @ k, ?v) \<in> set ?m"
        unfolding agg_inv_mem [OF inv] by simp
      with r show "\<exists>K v. (K, v) \<in> set ?m \<and> cs_soldAmount v > threshold \<and>
        c = cs_category v \<and> k = cs_combo v \<and> a = cs_soldAmount v"
        by (intro exI [of _ "category_str c @ '':'' @ k"] exI [of _ ?v]) simp
    qed
    also have "\<dots> \<longleftrightarrow> x \<in> ?rhs"
      unfolding x by auto
    finally show "x \<in> ?lhs \<longleftrightarrow> x \<in> ?rhs" .
  qed
next
  let ?m = "aggregateComboSales tickets"
  have "distinct (map (\<lambda>(K, v). (cs_category v, cs_combo v))
      (filter (\<lambda>(k, data). cs_soldAmount data > threshold) ?m))"
    using agg_inv_distinct_pairs [OF aggregate_inv [of tickets]] by (rule distinct_map_filter)
  then show "distinct (map (\<lambda>r. (rn_category r, rn_combo r)) (findRiskyNumbers tickets threshold))"
    unfolding findRiskyNumbers_sorted_filter distinct_map_sort_cmp
    by (simp add: comp_def case_prod_unfold)
next
  assume "descendingComparator (set (map rn_soldAmount (findRiskyNumbers tickets threshold)))"
  then have dc: "descendingComparator (rn_soldAmount ` set (findRiskyNumbers tickets threshold))"
    by simp
  show "sorted_wrt (\<lambda>a b. \<not> a < b) (map rn_soldAmount (findRiskyNumbers tickets threshold))"
    unfolding sorted_wrt_map
    using sorted_risky [of "map (\<lambda>(k, data). \<lparr>rn_combo = cs_combo data, rn_category = cs_category data,
                            rn_soldAmount = cs_soldAmount data, rn_threshold = threshold\<rparr>)
            (filter (\<lambda>(k, data). cs_soldAmount data > threshold) (aggregateComboSales tickets))"]
      dc
    unfolding findRiskyNumbers_sorted_filter set_sort_cmp .
qed

lemma riskTickets_live:
  "liveCombos riskTickets =
     [(soldEntry C3top ''123'' 50 2,
       \<lparr>combo = ''123'', pc_unitPrice = 50, pc_quantity = 2, soldAmount = 100, payoutRate = 800\<rparr>),
      (soldEntry C2top ''12'' 60 1,
       \<lparr>combo = ''12'', pc_unitPrice = 60, pc_quantity = 1, soldAmount = 60, payoutRate = 70\<rparr>),
      (soldEntry C2top ''12'' 41 1,
       \<lparr>combo = ''12'', pc_unitPrice = 41, pc_quantity = 1, soldAmount = 41, payoutRate = 70\<rparr>)]"
  by (simp add: liveCombos_def riskTickets_def mkTicket_def soldEntry_def mkEntry_def)

theorem risky_numbers_witness:
  "(C2top, ''12'', 101) \<in>
     set (map (\<lambda>r. (rn_category r, rn_combo r, rn_soldAmount r)) (findRiskyNumbers riskTickets 100)) \<and>
   (\<forall>a. (C3top, ''123'', a) \<notin>
     set (map (\<lambda>r. (rn_category r, rn_combo r, rn_soldAmount r)) (findRiskyNumbers riskTickets 100))) \<and>
   (C3top, ''123'', 100) \<in>
     set (map (\<lambda>r. (rn_category r, rn_combo r, rn_soldAmount r)) (findRiskyNumbers riskTickets 99)) \<and>
   sorted_wrt (\<lambda>a b. \<not> a < b) (map rn_soldAmount (findRiskyNumbers riskTickets 99)) \<and>
   map rn_soldAmount (findRiskyNumbers riskTickets 99) = [101, 100]"
proof -
  have s1: "soldIn (liveCombos riskTickets) C2top ''12'' = Some 101"
    and s2: "soldIn (liveCombos riskTickets) C3top ''123'' = Some 100"
    unfolding riskTickets_live
    by (simp_all add: soldIn_def soldAmountsOf_def soldEntry_def mkEntry_def)
  have dc: "descendingComparator (S :: int set)" for S
    unfolding descendingComparator_def by (intro conjI ballI) linarith+
  note r100 = risky_numbers [of riskTickets 100] and r99 = risky_numbers [of riskTickets 99]
  from r100 s1 have a: "(C2top, ''12'', 101) \<in>
     set (map (\<lambda>r. (rn_category r, rn_combo r, rn_soldAmount r)) (findRiskyNumbers riskTickets 100))"
    by auto
  from r100 s2 have b: "\<forall>a. (C3top, ''123'', a) \<notin>
     set (map (\<lambda>r. (rn_category r, rn_combo r, rn_soldAmount r)) (findRiskyNumbers riskTickets 100))"
    by auto
  from r99 s2 have c: "(C3top, ''123'', 100) \<in>
     set (map (\<lambda>r. (rn_category r, rn_combo r, rn_soldAmount r)) (findRiskyNumbers riskTickets 99))"
    by auto
  from r99 dc have d: "sorted_wrt (\<lambda>a b. \<not> a < b) (map rn_soldAmount (findRiskyNumbers riskTickets 99))"
    by blast
  have e: "map rn_soldAmount (findRiskyNumbers riskTickets 99) = [101, 100]"
    by code_simp
  from a b c d e show ?thesis by blast
qed

section \<open>Verification: number ceiling\<close>

lemma dash_key_inj:
  "category_str c @ CHR ''-'' # k = category_str c' @ CHR ''-'' # k' \<longleftrightarrow> c = c' \<and> k = k'"
proof
  assume "category_str c @ CHR ''-'' # k = category_str c' @ CHR ''-'' # k'"
  moreover have "CHR ''-'' \<notin> set (category_str d)" for d
    by (cases d) simp_all
  ultimately show "c = c' \<and> k = k'"
    using category_str_sep [of c "CHR ''-''" k c' k'] by blast
qed auto

lemma amountIn_snoc:
  "amountIn (ys @ [(e, n)]) c k =
     (if category e = c \<and> n = k
      then Some (case amountIn ys c k of None \<Rightarrow> perComboAmount e n | Some s \<Rightarrow> s + perComboAmount e n)
      else amountIn ys c k)"
  by (auto simp: amountIn_def amountsOf_def runningSum_snoc)

lemma num_inv_step:
  assumes inv: "num_inv mx m ys"
  shows "num_inv mx (addNumberTotal mx e n m) (ys @ [(e, n)])"
proof -
  let ?K = "category_str (category e) @ ''-'' @ n"
  from inv have dist: "distinct (map fst m)"
    and val: "\<And>K v. map_of m K = Some v \<Longrightarrow>
         K = category_str (nt_category v) @ ''-'' @ nt_number v \<and>
         amountIn ys (nt_category v) (nt_number v) = Some (totalAmount v) \<and>
         (exceedsCeiling v \<longleftrightarrow> totalAmount v \<ge> mx)"
    and dom: "\<And>c k. amountIn ys c k \<noteq> None \<Longrightarrow> map_of m (category_str c @ ''-'' @ k) \<noteq> None"
    unfolding num_inv_def by blast+
  obtain v0 where m': "addNumberTotal mx e n m = AList.update ?K v0 m"
    and v0c: "nt_category v0 = category e" and v0n: "nt_number v0 = n"
    and v0t: "amountIn (ys @ [(e, n)]) (category e) n = Some (totalAmount v0)"
    and v0x: "exceedsCeiling v0 \<longleftrightarrow> totalAmount v0 \<ge> mx"
  proof (cases "map_of m ?K")
    case None
    then have absent: "amountIn ys (category e) n = None"
      using dom by blast
    let ?v = "\<lparr>nt_number = n, nt_category = category e, totalAmount = perComboAmount e n,
               exceedsCeiling = (perComboAmount e n \<ge> mx)\<rparr>"
    have "addNumberTotal mx e n m = AList.update ?K ?v m"
      using None by (simp add: addNumberTotal_def Let_def)
    moreover have "amountIn (ys @ [(e, n)]) (category e) n = Some (totalAmount ?v)"
      using absent by (simp add: amountIn_snoc)
    ultimately show ?thesis
      by (intro that [of ?v]) simp_all
  next
    case (Some ex)
    from val [OF Some] have exk: "nt_category ex = category e" "nt_number ex = n"
      and exs: "amountIn ys (category e) n = Some (totalAmount ex)"
      by (auto simp: dash_key_inj)
    let ?v = "ex\<lparr>totalAmount := totalAmount ex + perComboAmount e n,
                 exceedsCeiling := (totalAmount ex + perComboAmount e n \<ge> mx)\<rparr>"
    have "addNumberTotal mx e n m = AList.update ?K ?v m"
      using Some by (simp add: addNumberTotal_def Let_def)
    moreover have "amountIn (ys @ [(e, n)]) (category e) n = Some (totalAmount ?v)"
      using exs by (simp add: amountIn_snoc)
    ultimately show ?thesis
      using exk by (intro that [of ?v]) simp_all
  qed
  show ?thesis
    unfolding num_inv_def m'
  proof (intro conjI allI impI)
    show "distinct (map fst (AList.update ?K v0 m))"
      using dist by (simp add: distinct_update)
  next
    fix K v
    assume look: "map_of (AList.update ?K v0 m) K = Some v"
    show "K = category_str (nt_category v) @ ''-'' @ nt_number v"
      using look val v0c v0n by (auto simp: update_conv' split: if_splits)
    show "amountIn (ys @ [(e, n)]) (nt_category v) (nt_number v) = Some (totalAmount v)"
    proof (cases "K = ?K")
      case True
      with look have "v = v0" by (simp add: update_conv')
      then show ?thesis
        using v0c v0n v0t by simp
    next
      case False
      with look have old: "map_of m K = Some v" by (simp add: update_conv')
      with val [OF old] False have "\<not> (category e = nt_category v \<and> n = nt_number v)"
        by auto
      with val [OF old] show ?thesis
        by (auto simp: amountIn_snoc)
    qed
    show "exceedsCeiling v \<longleftrightarrow> totalAmount v \<ge> mx"
    proof (cases "K = ?K")
      case True
      with look have "v = v0" by (simp add: update_conv')
      then show ?thesis
        using v0x by simp
    next
      case False
      with look have old: "map_of m K = Some v" by (simp add: update_conv')
      from val [OF old] show ?thesis
        by simp
    qed
  next
    fix c k
    assume "amountIn (ys @ [(e, n)]) c k \<noteq> None"
    then show "map_of (AList.update ?K v0 m) (category_str c @ ''-'' @ k) \<noteq> None"
      using dom by (auto simp: update_conv' amountIn_snoc split: if_splits)
  qed
qed

lemma num_inv_fold:
  "num_inv mx m ys \<Longrightarrow> num_inv mx (fold (\<lambda>(e, n). addNumberTotal mx e n) xs m) (ys @ xs)"
proof (induction xs arbitrary: m ys)
  case Nil
  then show ?case by simp
next
  case (Cons x xs)
  obtain e n where x: "x = (e, n)" by (cases x)
  from Cons.prems have "num_inv mx (addNumberTotal mx e n m) (ys @ [(e, n)])"
    by (rule num_inv_step)
  from Cons.IH [OF this] show ?case
    by (simp add: x)
qed

lemma fold_entries_numbers:
  "fold (\<lambda>entry acc. fold (f entry) (g entry) acc) es acc =
   fold (\<lambda>(e, n). f e n) (concat (map (\<lambda>e. map (Pair e) (g e)) es)) acc"
  by (induction es arbitrary: acc) (simp_all add: fold_map comp_def)

lemma fold_tickets_numbers:
  "fold (\<lambda>ticket acc. fold (\<lambda>entry acc. fold (f entry) (g entry) acc) (entries ticket) acc) ts acc =
   fold (\<lambda>(e, n). f e n)
     (concat (map (\<lambda>t. concat (map (\<lambda>e. map (Pair e) (g e)) (entries t))) ts)) acc"
  by (induction ts arbitrary: acc) (simp_all add: fold_entries_numbers)

lemma getNumberTotals_live:
  "getNumberTotals tickets d mx = fold (\<lambda>(e, n). addNumberTotal mx e n) (liveNumbers tickets d) []"
  unfolding getNumberTotals_def liveNumbers_def Let_def
  by (rule fold_tickets_numbers)

lemma getNumberTotals_inv: "num_inv mx (getNumberTotals tickets d mx) (liveNumbers tickets d)"
proof -
  have "num_inv mx [] ([] :: ('a Entry \<times> string) list)"
    by (simp add: num_inv_def amountIn_def amountsOf_def)
  from num_inv_fold [OF this, of "liveNumbers tickets d"] show ?thesis
    by (simp add: getNumberTotals_live)
qed

lemma num_inv_mem:
  assumes inv: "num_inv mx m L"
  shows "(K, v) \<in> set m \<longleftrightarrow>
           K = category_str (nt_category v) @ ''-'' @ nt_number v \<and>
           amountIn L (nt_category v) (nt_number v) = Some (totalAmount v) \<and>
           exceedsCeiling v = (totalAmount v \<ge> mx)"
proof
  assume "(K, v) \<in> set m"
  with inv have "map_of m K = Some v"
    by (simp add: num_inv_def)
  with inv show "K = category_str (nt_category v) @ ''-'' @ nt_number v \<and>
           amountIn L (nt_category v) (nt_number v) = Some (totalAmount v) \<and>
           exceedsCeiling v = (totalAmount v \<ge> mx)"
    unfolding num_inv_def by blast
next
  assume r: "K = category_str (nt_category v) @ ''-'' @ nt_number v \<and>
           amountIn L (nt_category v) (nt_number v) = Some (totalAmount v) \<and>
           exceedsCeiling v = (totalAmount v \<ge> mx)"
  with inv obtain v' where v': "map_of m K = Some v'"
    unfolding num_inv_def by (metis option.distinct(1) option.exhaust)
  with inv have "K = category_str (nt_category v') @ ''-'' @ nt_number v'"
    and s: "amountIn L (nt_category v') (nt_number v') = Some (totalAmount v')"
    and x: "exceedsCeiling v' = (totalAmount v' \<ge> mx)"
    unfolding num_inv_def by blast+
  with r have "nt_category v' = nt_category v \<and> nt_number v' = nt_number v"
    by (simp add: dash_key_inj)
  with r s x have "v' = v"
    by (simp add: NumberTotal.equality)
  with v' show "(K, v) \<in> set m"
    by (simp add: map_of_SomeD)
qed

text \<open>
  Claim C6. \<open>getNumberTotals\<close> reads only the tickets that are not soft-deleted and whose
  date string equals the given date: it has one entry per (category, expanded number) pair of
  their entries, under the key of that pair, whose \<open>totalAmount\<close> is the sum of the amounts
  of the pair, added in the order of the tickets, and nothing else. In every NumberTotal of
  the result \<open>exceedsCeiling\<close> is true if and only if \<open>totalAmount \<ge> perNumberMax\<close>, the
  comparison of the program on the total it has formed.
\<close>

theorem number_totals:
  "getNumberTotals tickets d mx =
     getNumberTotals (filter (\<lambda>t. \<not> deleted t \<and> date t = d) tickets) d mx \<and>
   distinct (map fst (getNumberTotals tickets d mx)) \<and>
   (\<forall>K v. (K, v) \<in> set (getNumberTotals tickets d mx) \<longleftrightarrow>
      K = category_str (nt_category v) @ ''-'' @ nt_number v \<and>
      amountIn (liveNumbers tickets d) (nt_category v) (nt_number v) = Some (totalAmount v) \<and>
      exceedsCeiling v = (totalAmount v \<ge> mx)) \<and>
   (\<forall>(K, v) \<in> set (getNumberTotals tickets d mx). exceedsCeiling v \<longleftrightarrow> totalAmount v \<ge> mx)"
proof (intro conjI allI)
  show "getNumberTotals tickets d mx =
     getNumberTotals (filter (\<lambda>t. \<not> deleted t \<and> date t = d) tickets) d mx"
    by (simp add: getNumberTotals_def)
next
  show "distinct (map fst (getNumberTotals tickets d mx))"
    using getNumberTotals_inv [of mx tickets d] by (simp add: num_inv_def)
next
  fix K v
  show "(K, v) \<in> set (getNumberTotals tickets d mx) \<longleftrightarrow>
      K = category_str (nt_category v) @ ''-'' @ nt_number v \<and>
      amountIn (liveNumbers tickets d) (nt_category v) (nt_number v) = Some (totalAmount v) \<and>
      exceedsCeiling v = (totalAmount v \<ge> mx)"
    by (rule num_inv_mem [OF getNumberTotals_inv])
next
  show "\<forall>(K, v) \<in> set (getNumberTotals tickets d mx). exceedsCeiling v \<longleftrightarrow> totalAmount v \<ge> mx"
    using num_inv_mem [OF getNumberTotals_inv [of mx tickets d]] by auto
qed

lemma riskTickets_numbers:
  "liveNumbers riskTickets ''2025-01-02'' =
     [(soldEntry C3top ''123'' 50 2, ''123''), (soldEntry C2top ''12'' 60 1, ''12'')]"
  by (simp add: liveNumbers_def riskTickets_def mkTicket_def soldEntry_def mkEntry_def)

theorem number_totals_witness:
  "(''3top-123'', \<lparr>nt_number = ''123'', nt_category = C3top, totalAmount = 100, exceedsCeiling = True\<rparr>)
     \<in> set (getNumberTotals riskTickets ''2025-01-02'' 100) \<and>
   (''2top-12'', \<lparr>nt_number = ''12'', nt_category = C2top, totalAmount = 60, exceedsCeiling = False\<rparr>)
     \<in> set (getNumberTotals riskTickets ''2025-01-02'' 100)"
proof -
  have a: "amountIn (liveNumbers riskTickets ''2025-01-02'') C3top ''123'' = Some 100"
    and b: "amountIn (liveNumbers riskTickets ''2025-01-02'') C2top ''12'' = Some 60"
    unfolding riskTickets_numbers
    by (simp_all add: amountIn_def amountsOf_def perComboAmount_def soldEntry_def mkEntry_def)
  note nt = number_totals [of riskTickets "''2025-01-02''" 100]
  note mem = nt [THEN conjunct2, THEN conjunct2, THEN conjunct1]
  from mem [THEN spec, THEN spec, of "''3top-123''"
      "\<lparr>nt_number = ''123'', nt_category = C3top, totalAmount = 100, exceedsCeiling = True\<rparr>"] a
  have m1: "(''3top-123'', \<lparr>nt_number = ''123'', nt_category = C3top, totalAmount = 100, exceedsCeiling = True\<rparr>)
     \<in> set (getNumberTotals riskTickets ''2025-01-02'' 100)"
    by simp
  from mem [THEN spec, THEN spec, of "''2top-12''"
      "\<lparr>nt_number = ''12'', nt_category = C2top, totalAmount = 60, exceedsCeiling = False\<rparr>"] b
  have m2: "(''2top-12'', \<lparr>nt_number = ''12'', nt_category = C2top, totalAmount = 60, exceedsCeiling = False\<rparr>)
     \<in> set (getNumberTotals riskTickets ''2025-01-02'' 100)"
    by simp
  from m1 m2 show ?thesis
    by (intro conjI)
qed

section \<open>Verification: draw periods\<close>

lemma month_index_inj:
  fixes y m :: int
  assumes "1 \<le> m" "m \<le> 12" "1 \<le> m'" "m' \<le> 12" "y * 12 + m = y' * 12 + m'"
  shows "y = y'"
  using assms by linarith

lemma month_index_eq:
  fixes y m :: int
  assumes "1 \<le> m" "m \<le> 12" "1 \<le> m'" "m' \<le> 12"
  shows "y * 12 + m = y' * 12 + m' \<longleftrightarrow> y = y' \<and> m = m'"
  using month_index_inj [OF assms, of y y'] by auto

lemma parseISODate_month:
  assumes "parseISODate s = Some (y, m, d)"
  shows "1 \<le> m \<and> m \<le> 12"
  using assms by (auto simp: parseISODate_def Let_def split: if_splits)

lemma localFields_east:
  assumes "0 \<le> tzOffset rt (y, m, d)" "tzOffset rt (y, m, d) < 1440"
  shows "localFields rt (y, m, d) = \<lparr>getFullYear = y, getMonth = m - 1, getDate = d\<rparr>"
proof -
  from assms have "tzOffset rt (y, m, d) div 1440 = 0"
    by simp
  then show ?thesis
    by (simp add: localFields_def shiftDays_def)
qed

text \<open>
  Claim C7. The claim: \<open>isDateInDrawPeriod(ticketDate, periodId)\<close> holds exactly when the
  ticket date lies in the window of the period. As stated this fails in a runtime whose local
  time is behind UTC: \<open>new Date('2025-02-01')\<close> is midnight UTC, which is still 31 January
  there, so \<open>getDate()\<close> is 31, the anchor is neither day 1 nor day 16, and the function
  returns false for the ticket of 18 January, which the window of the period holds.
\<close>

theorem draw_period_counterexample:
  "parseISODate ''2025-01-18'' = Some (2025, 1, 18) \<and>
   parseISODate ''2025-02-01'' = Some (2025, 2, 1) \<and>
   inDrawPeriod (2025, 1, 18) (2025, 2, 1) \<and>
   \<not> isDateInDrawPeriod westRuntime ''2025-01-18'' ''2025-02-01''"
proof -
  have t: "parseISODate ''2025-01-18'' = Some (2025, 1, 18)"
    by (simp add: parseISODate_def is_digit_def digitVal_def daysInMonth_def)
  have dp: "parseISODate ''2025-02-01'' = Some (2025, 2, 1)"
    by (simp add: parseISODate_def is_digit_def digitVal_def daysInMonth_def isLeapYear_def)
  have w: "inDrawPeriod (2025, 1, 18) (2025, 2, 1)"
    by (simp add: inDrawPeriod_def monthNumber_def dayOf_def)
  have "newDate westRuntime ''2025-02-01'' =
      Some \<lparr>getFullYear = 2025, getMonth = 0, getDate = 31\<rparr>"
    by (simp add: newDate_def dp localFields_def westRuntime_def shiftDays_def prevDay_def
          daysInMonth_def)
  then have "\<not> isDateInDrawPeriod westRuntime ''2025-01-18'' ''2025-02-01''"
    by (simp add: isDateInDrawPeriod_def Let_def split: option.splits)
  with t dp w show ?thesis by simp
qed

text \<open>
  Claim C7, amended. In a runtime whose local time is UTC or ahead of it by less than a day
  at the two dates, for a ticket date and a period id that are ISO dates \<open>YYYY-MM-DD\<close>,
  \<open>isDateInDrawPeriod\<close> holds exactly when the period anchor is day 1 of a month M and the
  ticket is dated day 18 or later of the month before M (December of the year before when M
  is January) or day 1 of M, or the anchor is day 16 of M and the ticket is dated day 2 to
  day 17 of M; every other ticket date is outside the period.
\<close>

theorem draw_period:
  assumes pt: "parseISODate ticketDate = Some t" and pd: "parseISODate drawPeriodId = Some dp"
    and zt: "0 \<le> tzOffset rt t" "tzOffset rt t < 1440"
    and zd: "0 \<le> tzOffset rt dp" "tzOffset rt dp < 1440"
  shows "isDateInDrawPeriod rt ticketDate drawPeriodId \<longleftrightarrow> inDrawPeriod t dp"
proof -
  obtain ty tm td where t: "t = (ty, tm, td)" by (cases t)
  obtain dy dm dd where dp: "dp = (dy, dm, dd)" by (cases dp)
  from pt pd have mt: "1 \<le> tm" "tm \<le> 12" and md: "1 \<le> dm" "dm \<le> 12"
    unfolding t dp using parseISODate_month by blast+
  have nt: "newDate rt ticketDate = Some \<lparr>getFullYear = ty, getMonth = tm - 1, getDate = td\<rparr>"
    using pt zt unfolding t by (simp add: newDate_def localFields_east)
  have nd: "newDate rt drawPeriodId = Some \<lparr>getFullYear = dy, getMonth = dm - 1, getDate = dd\<rparr>"
    using pd zd unfolding dp by (simp add: newDate_def localFields_east)
  have same: "ty * 12 + tm = dy * 12 + dm \<longleftrightarrow> ty = dy \<and> tm = dm"
    by (rule month_index_eq [OF mt md])
  have prev: "ty * 12 + tm = dy * 12 + dm - 1 \<longleftrightarrow>
      (if dm = 1 then ty = dy - 1 \<and> tm = 12 else ty = dy \<and> tm = dm - 1)"
  proof (cases "dm = 1")
    case True
    have e: "dy * 12 + dm - 1 = (dy - 1) * 12 + 12"
      using True by (simp add: algebra_simps)
    have "ty * 12 + tm = (dy - 1) * 12 + 12 \<longleftrightarrow> ty = dy - 1 \<and> tm = 12"
      by (rule month_index_eq [OF mt]) simp_all
    then show ?thesis
      unfolding e using True by simp
  next
    case False
    with md have r: "1 \<le> dm - 1" "dm - 1 \<le> 12"
      by linarith+
    have e: "dy * 12 + dm - 1 = dy * 12 + (dm - 1)"
      by linarith
    have "ty * 12 + tm = dy * 12 + (dm - 1) \<longleftrightarrow> ty = dy \<and> tm = dm - 1"
      by (rule month_index_eq [OF mt r])
    then show ?thesis
      unfolding e using False by simp
  qed
  have m0: "dm - 1 = 0 \<longleftrightarrow> dm = 1" and m1: "tm - 1 = dm - 1 \<longleftrightarrow> tm = dm"
    and m2: "tm - 1 = 11 \<longleftrightarrow> tm = 12" and m3: "tm - 1 = dm - 1 - 1 \<longleftrightarrow> tm = dm - 1"
    by linarith+
  have run: "isDateInDrawPeriod rt ticketDate drawPeriodId \<longleftrightarrow>
      (dd = 1 \<and> ((if dm = 1 then ty = dy - 1 \<and> tm = 12 else ty = dy \<and> tm = dm - 1) \<and> td \<ge> 18 \<or>
                 ty = dy \<and> tm = dm \<and> td = 1)) \<or>
      (dd = 16 \<and> ty = dy \<and> tm = dm \<and> 2 \<le> td \<and> td \<le> 17)"
    unfolding isDateInDrawPeriod_def nt nd option.case Let_def JSDate.select_convs m0 m1 m2 m3
    by (cases "dm = 1"; cases "dd = 1"; cases "dd = 16"; simp add: m2 m3)
  have spec: "inDrawPeriod t dp \<longleftrightarrow>
      (dd = 1 \<and> (ty * 12 + tm = dy * 12 + dm - 1 \<and> td \<ge> 18 \<or> ty * 12 + tm = dy * 12 + dm \<and> td = 1)) \<or>
      (dd = 16 \<and> ty * 12 + tm = dy * 12 + dm \<and> 2 \<le> td \<and> td \<le> 17)"
    unfolding t dp inDrawPeriod_def monthNumber_def dayOf_def prod.case ..
  show ?thesis
    unfolding run spec same prev by (simp only: conj_assoc)
qed

lemma sample_dates:
  "parseISODate ''2024-12-17'' = Some (2024, 12, 17)"
  "parseISODate ''2024-12-18'' = Some (2024, 12, 18)"
  "parseISODate ''2025-01-01'' = Some (2025, 1, 1)"
  "parseISODate ''2025-01-17'' = Some (2025, 1, 17)"
  "parseISODate ''2025-01-16'' = Some (2025, 1, 16)"
  "parseISODate ''2025-01-18'' = Some (2025, 1, 18)"
  "parseISODate ''2025-02-01'' = Some (2025, 2, 1)"
  by (simp_all add: parseISODate_def is_digit_def digitVal_def daysInMonth_def isLeapYear_def)

theorem draw_period_witness:
  "isDateInDrawPeriod bangkokRuntime ''2024-12-18'' ''2025-01-01'' \<and>
   isDateInDrawPeriod bangkokRuntime ''2025-01-01'' ''2025-01-01'' \<and>
   \<not> isDateInDrawPeriod bangkokRuntime ''2024-12-17'' ''2025-01-01'' \<and>
   isDateInDrawPeriod bangkokRuntime ''2025-01-18'' ''2025-02-01'' \<and>
   isDateInDrawPeriod bangkokRuntime ''2025-01-17'' ''2025-01-16'' \<and>
   \<not> isDateInDrawPeriod bangkokRuntime ''2025-01-01'' ''2025-01-16''"
proof (intro conjI)
  have z: "0 \<le> tzOffset bangkokRuntime c" "tzOffset bangkokRuntime c < 1440" for c
    by (simp_all add: bangkokRuntime_def)
  note d = draw_period [where rt = bangkokRuntime, OF _ _ z z]
  show "isDateInDrawPeriod bangkokRuntime ''2024-12-18'' ''2025-01-01''"
    by (subst d [OF sample_dates(2) sample_dates(3)])
       (simp add: inDrawPeriod_def monthNumber_def dayOf_def)
  show "isDateInDrawPeriod bangkokRuntime ''2025-01-01'' ''2025-01-01''"
    by (subst d [OF sample_dates(3) sample_dates(3)])
       (simp add: inDrawPeriod_def monthNumber_def dayOf_def)
  show "\<not> isDateInDrawPeriod bangkokRuntime ''2024-12-17'' ''2025-01-01''"
    by (subst d [OF sample_dates(1) sample_dates(3)])
       (simp add: inDrawPeriod_def monthNumber_def dayOf_def)
  show "isDateInDrawPeriod bangkokRuntime ''2025-01-18'' ''2025-02-01''"
    by (subst d [OF sample_dates(6) sample_dates(7)])
       (simp add: inDrawPeriod_def monthNumber_def dayOf_def)
  show "isDateInDrawPeriod bangkokRuntime ''2025-01-17'' ''2025-01-16''"
    by (subst d [OF sample_dates(4) sample_dates(5)])
       (simp add: inDrawPeriod_def monthNumber_def dayOf_def)
  show "\<not> isDateInDrawPeriod bangkokRuntime ''2025-01-01'' ''2025-01-16''"
    by (subst d [OF sample_dates(3) sample_dates(5)])
       (simp add: inDrawPeriod_def monthNumber_def dayOf_def)
qed

end
